theory Spec2Isabelle
  imports Main "HOL-Library.Word" "HOL-Library.Monad_Syntax"
begin

unbundle bit_operations_syntax

section \<open>Machine types and constants of td02imd_modern.c\<close>

text \<open>
  The port is compiled for targets whose \<open>int\<close> and \<open>unsigned\<close> are 32 bits wide, so an
  \<open>unsigned\<close> scalar is a \<open>32 word\<close> and an \<open>unsigned char\<close> an \<open>8 word\<close>. The Huffman
  arrays \<open>parent\<close>, \<open>son\<close> and \<open>freq\<close> hold \<open>unsigned\<close> values that are used as array
  indices throughout; they are kept as \<open>nat\<close> with the 32-bit wrap-around written out at
  every arithmetic operation.
\<close>

type_synonym byte = "8 word"
type_synonym uint = "32 word"

definition SBSIZE :: nat where "SBSIZE = 4096"
definition LASIZE :: nat where "LASIZE = 60"
definition THRESHOLD :: nat where "THRESHOLD = 2"
definition N_CHAR :: nat where "N_CHAR = 256 - THRESHOLD + LASIZE"
definition TSIZE :: nat where "TSIZE = N_CHAR * 2 - 1"
definition ROOT :: nat where "ROOT = TSIZE - 1"
definition MAX_FREQ :: nat where "MAX_FREQ = 0x8000"

section \<open>Bit reader: GetChar, GetBit, GetByte\<close>

text \<open>
  The globals read and written by the bit reader: the unread rest of the input file
  \<open>fpi\<close>, the end-of-file indicator \<open>Eof\<close>, the buffered bit count \<open>Bits\<close> and the bit
  buffer \<open>Bitbuff\<close> (both declared \<open>unsigned\<close>).
\<close>

record bitsrc =
  fpi :: "byte list"
  Eof :: byte
  Bits :: uint
  Bitbuff :: uint

text \<open>\<open>GetChar\<close>: \<open>fgetc\<close>; at end of file the result is 0 and \<open>Eof\<close> becomes 255.\<close>

definition GetChar :: "bitsrc \<Rightarrow> uint \<times> bitsrc" where
  "GetChar s = (case fpi s of
      [] \<Rightarrow> (0, s\<lparr>Eof := 255\<rparr>)
    | b # bs \<Rightarrow> (ucast b, s\<lparr>fpi := bs\<rparr>))"

text \<open>
  \<open>GetBit\<close>: \<open>if(!Bits--) { Bitbuff |= GetChar() << 8; Bits = 7; }
  t = Bitbuff >> 15; Bitbuff <<= 1; return t;\<close>
\<close>

definition GetBit :: "bitsrc \<Rightarrow> uint \<times> bitsrc" where
  "GetBit s =
    (let s1 = (if Bits s = 0
               then (case GetChar s of (c, s') \<Rightarrow>
                       s'\<lparr>Bits := 7, Bitbuff := Bitbuff s' OR push_bit 8 c\<rparr>)
               else s\<lparr>Bits := Bits s - 1\<rparr>);
         t = drop_bit 15 (Bitbuff s1)
     in (t, s1\<lparr>Bitbuff := push_bit 1 (Bitbuff s1)\<rparr>))"

text \<open>
  \<open>GetByte\<close>: \<open>if(Bits < 8) Bitbuff |= GetChar() << (8-Bits); else Bits -= 8;
  t = Bitbuff >> 8; Bitbuff <<= 8; return t;\<close>
\<close>

definition GetByte :: "bitsrc \<Rightarrow> uint \<times> bitsrc" where
  "GetByte s =
    (let s1 = (if Bits s < 8
               then (case GetChar s of (c, s') \<Rightarrow>
                       s'\<lparr>Bitbuff := Bitbuff s' OR push_bit (8 - unat (Bits s)) c\<rparr>)
               else s\<lparr>Bits := Bits s - 8\<rparr>);
         t = drop_bit 8 (Bitbuff s1)
     in (t, s1\<lparr>Bitbuff := push_bit 8 (Bitbuff s1)\<rparr>))"

text \<open>The bit reader as \<open>init_decompress\<close> leaves it (\<open>Bitbuff = Bits = 0\<close>), on a given file.\<close>

definition bits_start :: "byte list \<Rightarrow> bitsrc" where
  "bits_start f = \<lparr>fpi = f, Eof = 0, Bits = 0, Bitbuff = 0\<rparr>"

section \<open>Array access\<close>

text \<open>
  The C arrays have fixed sizes. A read or a write at an index outside the array is
  undefined behaviour in C; the model makes it the value \<open>None\<close>. In the functions below
  \<open>None\<close> therefore means that the C function has no defined result: an access outside
  an array, or (for the loops defined with \<^theory_text>\<open>partial_function\<close>) a loop that never ends.
\<close>

definition rd :: "'a list \<Rightarrow> nat \<Rightarrow> 'a option" where
  "rd xs i = (if i < length xs then Some (xs ! i) else None)"

definition wr :: "'a list \<Rightarrow> nat \<Rightarrow> 'a \<Rightarrow> 'a list option" where
  "wr xs i v = (if i < length xs then Some (xs[i := v]) else None)"

section \<open>Adaptive Huffman tree: init_decompress (tree part) and update\<close>

text \<open>
  \<open>unsigned parent[TSIZE+N_CHAR], son[TSIZE], freq[TSIZE+1]\<close>.
\<close>

record huff =
  parent :: "nat list"
  son :: "nat list"
  freq :: "nat list"

definition arrays_ok :: "huff \<Rightarrow> bool" where
  "arrays_ok h \<longleftrightarrow>
     length (parent h) = TSIZE + N_CHAR \<and> length (son h) = TSIZE \<and> length (freq h) = TSIZE + 1"

text \<open>
  First loop of \<open>init_decompress\<close>:
  \<open>for(i = j = 0; i < N_CHAR; ++i) { freq[i] = 1; son[i] = i + TSIZE; parent[i+TSIZE] = i; }\<close>
\<close>

function init_leaves :: "nat \<Rightarrow> huff \<Rightarrow> huff" where
  "init_leaves i h =
    (if i < N_CHAR
     then init_leaves (i + 1)
            (h\<lparr>freq := (freq h)[i := 1], son := (son h)[i := i + TSIZE],
               parent := (parent h)[i + TSIZE := i]\<rparr>)
     else h)"
  by pat_completeness auto
termination
  by (relation "measure (\<lambda>(i, h). N_CHAR - i)") auto

declare init_leaves.simps [simp del]

text \<open>
  Second loop:
  \<open>while(i <= ROOT) { freq[i] = freq[j] + freq[j+1]; son[i] = j;
  parent[j] = parent[j+1] = i++; j += 2; }\<close>
\<close>

function init_nodes :: "nat \<Rightarrow> nat \<Rightarrow> huff \<Rightarrow> huff" where
  "init_nodes i j h =
    (if i \<le> ROOT
     then init_nodes (i + 1) (j + 2)
            (h\<lparr>freq := (freq h)[i := (freq h ! j + freq h ! (j + 1)) mod 2 ^ 32],
               son := (son h)[i := j],
               parent := (parent h)[j + 1 := i, j := i]\<rparr>)
     else h)"
  by pat_completeness auto
termination
  by (relation "measure (\<lambda>(i, j, h). Suc ROOT - i)") auto

declare init_nodes.simps [simp del]

text \<open>
  The tree part of \<open>init_decompress\<close>: the two loops, then \<open>freq[TSIZE] = 0xFFFF\<close> and
  \<open>parent[ROOT] = 0\<close>.
\<close>

definition init_tree :: "huff \<Rightarrow> huff" where
  "init_tree h =
    (let h1 = init_nodes N_CHAR 0 (init_leaves 0 h);
         h2 = h1\<lparr>freq := (freq h1)[TSIZE := 0xFFFF]\<rparr>
     in h2\<lparr>parent := (parent h2)[ROOT := 0]\<rparr>)"

subsection \<open>The rebuild at the head of update\<close>

text \<open>
  \<open>for(i = j = 0; i < TSIZE; ++i) if(son[i] >= TSIZE)
  { freq[j] = (freq[i] + 1) / 2; son[j] = son[i]; ++j; }\<close>
\<close>

function rebuild_leaves :: "nat \<Rightarrow> nat \<Rightarrow> huff \<Rightarrow> huff" where
  "rebuild_leaves i j h =
    (if i < TSIZE
     then (if son h ! i \<ge> TSIZE
           then rebuild_leaves (i + 1) (j + 1)
                  (h\<lparr>freq := (freq h)[j := ((freq h ! i + 1) mod 2 ^ 32) div 2],
                     son := (son h)[j := son h ! i]\<rparr>)
           else rebuild_leaves (i + 1) j h)
     else h)"
  by pat_completeness auto
termination
  by (relation "measure (\<lambda>(i, j, h). TSIZE - i)") auto

declare rebuild_leaves.simps [simp del]

text \<open>
  \<open>for(k = j - 1; f < freq[k]; --k);\<close> returns the final \<open>k\<close>. When \<open>k\<close> is 0 and the test
  still holds, \<open>--k\<close> wraps to \<open>UINT_MAX\<close> and the next test reads outside \<open>freq\<close>.
\<close>

fun find_down :: "nat list \<Rightarrow> nat \<Rightarrow> nat \<Rightarrow> nat option" where
  "find_down fr f 0 =
     (if 0 < length fr then (if f < fr ! 0 then None else Some 0) else None)"
| "find_down fr f (Suc k) =
     (if Suc k < length fr
      then (if f < fr ! (Suc k) then find_down fr f k else Some (Suc k))
      else None)"

text \<open>
  \<open>memmove(&a[k+1], &a[k], (j - k) * sizeof(a[0])); a[k] = v;\<close> for \<open>k \<le> j < length a\<close>:
  the elements \<open>a[k..j-1]\<close> move up by one place, \<open>a[j]\<close> is overwritten.
\<close>

definition array_insert :: "'a list \<Rightarrow> nat \<Rightarrow> nat \<Rightarrow> 'a \<Rightarrow> 'a list" where
  "array_insert a k j v = take k a @ v # take (j - k) (drop k a) @ drop (j + 1) a"

text \<open>
  \<open>for(i = 0, j = N_CHAR; j < TSIZE; i += 2, ++j) { k = i + 1;
  f = freq[j] = freq[i] + freq[k]; for(k = j - 1; f < freq[k]; --k); ++k;
  l = (j - k) * sizeof(freq[0]); memmove(&freq[k+1], &freq[k], l); freq[k] = f;
  memmove(&son[k+1], &son[k], l); son[k] = i; }\<close>
\<close>

function rebuild_nodes :: "nat \<Rightarrow> nat \<Rightarrow> huff \<Rightarrow> huff option" where
  "rebuild_nodes i j h =
    (if j < TSIZE
     then (let f = (freq h ! i + freq h ! (i + 1)) mod 2 ^ 32;
               fr = (freq h)[j := f]
           in case find_down fr f (j - 1) of
                None \<Rightarrow> None
              | Some k0 \<Rightarrow>
                  (let k = k0 + 1
                   in rebuild_nodes (i + 2) (j + 1)
                        (h\<lparr>freq := array_insert fr k j f,
                           son := array_insert (son h) k j i\<rparr>)))
     else Some h)"
  by pat_completeness auto
termination
  by (relation "measure (\<lambda>(i, j, h). TSIZE - j)") auto

declare rebuild_nodes.simps [simp del]

text \<open>
  \<open>for(i = 0; i < TSIZE; ++i) if((k = son[i]) >= TSIZE) parent[k] = i;
  else parent[k] = parent[k+1] = i;\<close>
\<close>

function rebuild_parents :: "nat \<Rightarrow> huff \<Rightarrow> huff option" where
  "rebuild_parents i h =
    (if i < TSIZE
     then (let k = son h ! i
           in if k \<ge> TSIZE
              then (case wr (parent h) k i of
                      None \<Rightarrow> None
                    | Some p \<Rightarrow> rebuild_parents (i + 1) (h\<lparr>parent := p\<rparr>))
              else (case wr (parent h) (k + 1) i of
                      None \<Rightarrow> None
                    | Some p \<Rightarrow>
                        (case wr p k i of
                           None \<Rightarrow> None
                         | Some p' \<Rightarrow> rebuild_parents (i + 1) (h\<lparr>parent := p'\<rparr>))))
     else Some h)"
  by pat_completeness auto
termination
  by (relation "measure (\<lambda>(i, h). TSIZE - i)") auto

declare rebuild_parents.simps [simp del]

definition rebuild :: "huff \<Rightarrow> huff option" where
  "rebuild h =
    (case rebuild_nodes 0 N_CHAR (rebuild_leaves 0 0 h) of
       None \<Rightarrow> None
     | Some h2 \<Rightarrow> rebuild_parents 0 h2)"

subsection \<open>The frequency increment of update\<close>

text \<open>\<open>while(k > freq[++l]);\<close> returns the final \<open>l\<close>.\<close>

function find_up :: "nat list \<Rightarrow> nat \<Rightarrow> nat \<Rightarrow> nat option" where
  "find_up fr k l =
    (if l + 1 < length fr
     then (if k > fr ! (l + 1) then find_up fr k (l + 1) else Some (l + 1))
     else None)"
  by pat_completeness auto
termination
  by (relation "measure (\<lambda>(fr, k, l). length fr - l)") auto

declare find_up.simps [simp del]

text \<open>
  One pass through the body of the \<open>do ... while\<close> loop, from node \<open>c\<close>; the result is the
  new tree and the new value of \<open>c\<close>:
  \<open>k = ++freq[c]; if(k > freq[l = c+1]) { while(k > freq[++l]); freq[c] = freq[--l];
  freq[l] = k; parent[i = son[c]] = l; if(i < TSIZE) parent[i+1] = l;
  parent[j = son[l]] = c; son[l] = i; if(j < TSIZE) parent[j+1] = c; son[c] = j; c = l; }\<close>
\<close>

definition update_step :: "huff \<Rightarrow> nat \<Rightarrow> (huff \<times> nat) option" where
  "update_step h c = do {
     fc \<leftarrow> rd (freq h) c;
     let k = (fc + 1) mod 2 ^ 32;
     let fr1 = (freq h)[c := k];
     fl \<leftarrow> rd fr1 (c + 1);
     if k > fl then do {
       l1 \<leftarrow> find_up fr1 k (c + 1);
       let l = l1 - 1;
       let fr2 = fr1[c := fr1 ! l];
       let fr3 = fr2[l := k];
       i \<leftarrow> rd (son h) c;
       p1 \<leftarrow> wr (parent h) i l;
       p2 \<leftarrow> (if i < TSIZE then wr p1 (i + 1) l else Some p1);
       j \<leftarrow> rd (son h) l;
       p3 \<leftarrow> wr p2 j c;
       let sn1 = (son h)[l := i];
       p4 \<leftarrow> (if j < TSIZE then wr p3 (j + 1) c else Some p3);
       let sn2 = sn1[c := j];
       Some (h\<lparr>parent := p4, son := sn2, freq := fr3\<rparr>, l)
     } else Some (h\<lparr>freq := fr1\<rparr>, c)
   }"

text \<open>\<open>do { ... } while(c = parent[c]);\<close>\<close>

partial_function (option) update_loop :: "huff \<Rightarrow> nat \<Rightarrow> huff option" where
  [code]: "update_loop h c = do {
     (h', c') \<leftarrow> update_step h c;
     p \<leftarrow> rd (parent h') c';
     if p \<noteq> 0 then update_loop h' p else Some h'
   }"

text \<open>
  \<open>update(c)\<close>: \<open>if(freq[ROOT] == MAX_FREQ) { rebuild }\<close>, then \<open>c = parent[c+TSIZE]\<close> and
  the increment loop.
\<close>

definition update :: "huff \<Rightarrow> nat \<Rightarrow> huff option" where
  "update h c = do {
     r \<leftarrow> rd (freq h) ROOT;
     h1 \<leftarrow> (if r = MAX_FREQ then rebuild h else Some h);
     c0 \<leftarrow> rd (parent h1) (c + TSIZE);
     update_loop h1 c0
   }"

section \<open>Decoding a symbol and a position\<close>

text \<open>
  \<open>DecodeChar\<close>: \<open>c = ROOT; while((c = son[c]) < TSIZE) c += GetBit();\<close> The walk returns
  the value of \<open>c\<close> at the exit of the loop.
\<close>

partial_function (option) DecodeChar_walk ::
    "nat list \<Rightarrow> nat \<Rightarrow> bitsrc \<Rightarrow> (nat \<times> bitsrc) option" where
  [code]: "DecodeChar_walk sn c b = do {
     c' \<leftarrow> rd sn c;
     if c' < TSIZE
     then (case GetBit b of (t, b') \<Rightarrow> DecodeChar_walk sn ((c' + unat t) mod 2 ^ 32) b')
     else Some (c', b)
   }"

text \<open>\<open>update(c -= TSIZE); return c;\<close>\<close>

definition DecodeChar :: "huff \<Rightarrow> bitsrc \<Rightarrow> (nat \<times> huff \<times> bitsrc) option" where
  "DecodeChar h b = do {
     (c, b') \<leftarrow> DecodeChar_walk (son h) ROOT b;
     let c1 = c - TSIZE;
     h' \<leftarrow> update h c1;
     Some (c1, h', b')
   }"

definition d_code :: "byte list" where
  "d_code =
    [     0x00, 0x00, 0x00, 0x00, 0x00, 0x00, 0x00, 0x00, 0x00, 0x00, 0x00, 0x00, 0x00, 0x00, 0x00, 0x00,
     0x00, 0x00, 0x00, 0x00, 0x00, 0x00, 0x00, 0x00, 0x00, 0x00, 0x00, 0x00, 0x00, 0x00, 0x00, 0x00,
     0x01, 0x01, 0x01, 0x01, 0x01, 0x01, 0x01, 0x01, 0x01, 0x01, 0x01, 0x01, 0x01, 0x01, 0x01, 0x01,
     0x02, 0x02, 0x02, 0x02, 0x02, 0x02, 0x02, 0x02, 0x02, 0x02, 0x02, 0x02, 0x02, 0x02, 0x02, 0x02,
     0x03, 0x03, 0x03, 0x03, 0x03, 0x03, 0x03, 0x03, 0x03, 0x03, 0x03, 0x03, 0x03, 0x03, 0x03, 0x03,
     0x04, 0x04, 0x04, 0x04, 0x04, 0x04, 0x04, 0x04, 0x05, 0x05, 0x05, 0x05, 0x05, 0x05, 0x05, 0x05,
     0x06, 0x06, 0x06, 0x06, 0x06, 0x06, 0x06, 0x06, 0x07, 0x07, 0x07, 0x07, 0x07, 0x07, 0x07, 0x07,
     0x08, 0x08, 0x08, 0x08, 0x08, 0x08, 0x08, 0x08, 0x09, 0x09, 0x09, 0x09, 0x09, 0x09, 0x09, 0x09,
     0x0A, 0x0A, 0x0A, 0x0A, 0x0A, 0x0A, 0x0A, 0x0A, 0x0B, 0x0B, 0x0B, 0x0B, 0x0B, 0x0B, 0x0B, 0x0B,
     0x0C, 0x0C, 0x0C, 0x0C, 0x0D, 0x0D, 0x0D, 0x0D, 0x0E, 0x0E, 0x0E, 0x0E, 0x0F, 0x0F, 0x0F, 0x0F,
     0x10, 0x10, 0x10, 0x10, 0x11, 0x11, 0x11, 0x11, 0x12, 0x12, 0x12, 0x12, 0x13, 0x13, 0x13, 0x13,
     0x14, 0x14, 0x14, 0x14, 0x15, 0x15, 0x15, 0x15, 0x16, 0x16, 0x16, 0x16, 0x17, 0x17, 0x17, 0x17,
     0x18, 0x18, 0x19, 0x19, 0x1A, 0x1A, 0x1B, 0x1B, 0x1C, 0x1C, 0x1D, 0x1D, 0x1E, 0x1E, 0x1F, 0x1F,
     0x20, 0x20, 0x21, 0x21, 0x22, 0x22, 0x23, 0x23, 0x24, 0x24, 0x25, 0x25, 0x26, 0x26, 0x27, 0x27,
     0x28, 0x28, 0x29, 0x29, 0x2A, 0x2A, 0x2B, 0x2B, 0x2C, 0x2C, 0x2D, 0x2D, 0x2E, 0x2E, 0x2F, 0x2F,
     0x30, 0x31, 0x32, 0x33, 0x34, 0x35, 0x36, 0x37, 0x38, 0x39, 0x3A, 0x3B, 0x3C, 0x3D, 0x3E, 0x3F]"

definition d_len :: "byte list" where
  "d_len = [2, 2, 3, 3, 3, 4, 4, 4, 4, 5, 5, 5, 6, 6, 6, 7]"

text \<open>\<open>while(--j) i = (i << 1) | GetBit();\<close> with \<open>j\<close> the value before the first decrement.\<close>

lemma word_pred_less: "(w :: uint) \<noteq> 0 \<Longrightarrow> unat (w - 1) < unat w"
  by (simp add: unat_minus_one unat_gt_0)

function DecodePosition_loop :: "uint \<Rightarrow> uint \<Rightarrow> bitsrc \<Rightarrow> uint \<times> bitsrc" where
  "DecodePosition_loop j i b =
    (if j - 1 \<noteq> 0
     then (case GetBit b of (t, b') \<Rightarrow> DecodePosition_loop (j - 1) (push_bit 1 i OR t) b')
     else (i, b))"
  by pat_completeness auto
termination
proof (relation "measure (\<lambda>(j, i, b). unat (j - 1))")
  show "wf (measure (\<lambda>(j :: uint, i :: uint, b :: bitsrc). unat (j - 1)))"
    by simp
next
  fix j i :: uint and b :: bitsrc and x xa y
  assume "j - 1 \<noteq> 0"
  then have "unat (j - 1 - 1) < unat (j - 1)"
    by (rule word_pred_less)
  then show "((j - 1, push_bit 1 i OR xa, y), j, i, b) \<in> measure (\<lambda>(j, i, b). unat (j - 1))"
    by simp
qed

declare DecodePosition_loop.simps [simp del]

text \<open>
  \<open>i = GetByte(); c = d_code[i] << 6; j = d_len[i >> 4]; while(--j) ...;
  return (i & 0x3F) | c;\<close>
\<close>

definition DecodePosition :: "bitsrc \<Rightarrow> (uint \<times> bitsrc) option" where
  "DecodePosition b =
    (case GetByte b of (i, b1) \<Rightarrow> do {
       dc \<leftarrow> rd d_code (unat i);
       let c = push_bit 6 (ucast dc :: uint);
       dl \<leftarrow> rd d_len (unat (drop_bit 4 i));
       (case DecodePosition_loop (ucast dl) i b1 of
          (i', b2) \<Rightarrow> Some ((i' AND 0x3F) OR c, b2))
     })"

section \<open>The decompressor: init_decompress and getbyte\<close>

text \<open>
  The global variables of the program: the Huffman arrays, the bit reader with the input
  file, the \<open>getbyte\<close> state, the ring buffer and the output file \<open>fpo\<close> (the bytes
  written so far).
\<close>

record globals =
  tree :: huff
  src :: bitsrc
  GBcheck :: uint
  GBr :: uint
  GBi :: uint
  GBj :: uint
  GBk :: uint
  GBstate :: byte
  Advcomp :: byte
  ring_buff :: "byte list"
  fpo :: "byte list"

text \<open>The globals at program start (C zero-initialises them), with the input file opened.\<close>

definition huff_start :: huff where
  "huff_start =
    \<lparr>parent = replicate (TSIZE + N_CHAR) 0, son = replicate TSIZE 0,
     freq = replicate (TSIZE + 1) 0\<rparr>"

definition globals_start :: "byte list \<Rightarrow> globals" where
  "globals_start f =
    \<lparr>tree = huff_start,
     src = \<lparr>fpi = f, Eof = 0, Bits = 0, Bitbuff = 0\<rparr>,
     GBcheck = 0, GBr = 0, GBi = 0, GBj = 0, GBk = 0, GBstate = 0, Advcomp = 0,
     ring_buff = replicate (SBSIZE + LASIZE - 1) 0, fpo = []\<rparr>"

text \<open>
  \<open>init_decompress\<close>: the tree, then \<open>memset(ring_buff, ' ', sizeof(ring_buff));
  Advcomp = freq[TSIZE] = 0xFFFF; parent[ROOT] = Bitbuff = Bits = 0; GBr = SBSIZE - LASIZE;\<close>
  (\<open>Advcomp\<close> is an \<open>unsigned char\<close> and keeps the low byte \<open>0xFF\<close>).
\<close>

definition init_decompress :: "globals \<Rightarrow> globals" where
  "init_decompress g =
    g\<lparr>tree := init_tree (tree g),
      ring_buff := replicate (SBSIZE + LASIZE - 1) 0x20,
      Advcomp := 0xFF,
      src := (src g)\<lparr>Bits := 0, Bitbuff := 0\<rparr>,
      GBr := of_nat (SBSIZE - LASIZE)\<rparr>"

text \<open>
  The block \<open>if(!GBstate) { ... }\<close> of \<open>getbyte\<close>, entered with \<open>GBstate = 0\<close>. It either
  returns a literal (\<open>Inl\<close>: the returned value and the globals) or sets up a string copy
  and falls through (\<open>Inr\<close>):
  \<open>c = DecodeChar(); if(c < 256) { ring_buff[GBr++] = c; GBr &= (SBSIZE-1); return c; }
  GBstate = 255; GBi = (GBr - DecodePosition() - 1) & (SBSIZE-1);
  GBj = c - 255 + THRESHOLD; GBk = 0;\<close>
\<close>

definition getbyte_idle :: "globals \<Rightarrow> ((int \<times> globals) + globals) option" where
  "getbyte_idle g = do {
     (c, h', b') \<leftarrow> DecodeChar (tree g) (src g);
     let g1 = g\<lparr>tree := h', src := b'\<rparr>;
     if c < 256
     then do {
       rb \<leftarrow> wr (ring_buff g1) (unat (GBr g1)) (of_nat c);
       Some (Inl (int c, g1\<lparr>ring_buff := rb, GBr := (GBr g1 + 1) AND of_nat (SBSIZE - 1)\<rparr>))
     }
     else do {
       (pos, b'') \<leftarrow> DecodePosition (src g1);
       Some (Inr (g1\<lparr>src := b'', GBstate := 255,
                     GBi := (GBr g1 - pos - 1) AND of_nat (SBSIZE - 1),
                     GBj := of_nat c - 255 + of_nat THRESHOLD,
                     GBk := 0\<rparr>))
     }
   }"

text \<open>
  The body of \<open>if(GBk < GBj) { ... }\<close>:
  \<open>ring_buff[GBr++] = c = ring_buff[(GBk++ + GBi) & (SBSIZE-1)]; GBr &= (SBSIZE-1);
  return c;\<close>
\<close>

definition getbyte_copy :: "globals \<Rightarrow> (int \<times> globals) option" where
  "getbyte_copy g = do {
     c \<leftarrow> rd (ring_buff g) (unat ((GBk g + GBi g) AND of_nat (SBSIZE - 1)));
     rb \<leftarrow> wr (ring_buff g) (unat (GBr g)) c;
     Some (uint c, g\<lparr>GBk := GBk g + 1, ring_buff := rb,
                     GBr := (GBr g + 1) AND of_nat (SBSIZE - 1)\<rparr>)
   }"

text \<open>
  The state machine \<open>for(;;) { if(Eof) return -1; if(!GBstate) { ... }
  if(GBk < GBj) { ... } GBstate = 0; }\<close>
\<close>

partial_function (option) getbyte_loop :: "globals \<Rightarrow> (int \<times> globals) option" where
  [code]: "getbyte_loop g =
    (if Eof (src g) \<noteq> 0 then Some (- 1, g)
     else do {
       r \<leftarrow> (if GBstate g = 0 then getbyte_idle g else Some (Inr g));
       (case r of
          Inl res \<Rightarrow> Some res
        | Inr g1 \<Rightarrow>
            if GBk g1 < GBj g1 then getbyte_copy g1
            else getbyte_loop (g1\<lparr>GBstate := 0\<rparr>))
     })"

text \<open>
  \<open>getbyte\<close>: \<open>--GBcheck; if(!Advcomp) return getc(fpi);\<close> and then the state machine.
  The result is the returned \<open>int\<close> (\<open>-1\<close> for \<open>EOF\<close>) and the new globals.
\<close>

definition getbyte :: "globals \<Rightarrow> (int \<times> globals) option" where
  "getbyte g =
    (let g0 = g\<lparr>GBcheck := GBcheck g - 1\<rparr>
     in if Advcomp g0 = 0
        then (case fpi (src g0) of
                [] \<Rightarrow> Some (- 1, g0)
              | b # bs \<Rightarrow> Some (uint b, g0\<lparr>src := (src g0)\<lparr>fpi := bs\<rparr>\<rparr>))
        else getbyte_loop g0)"

section \<open>Sector payloads and the container walk of main\<close>

text \<open>
  \<open>error(...)\<close> prints its message, closes the files and calls \<open>exit(1)\<close>: each call site
  is one constructor of \<open>fault\<close>, named after its message. The model starts after both
  \<open>fopen\<close> calls have succeeded and takes \<open>malloc\<close> to succeed. \<open>Undefined\<close> marks the
  places where the C code has undefined behaviour.
\<close>

datatype undefined_behaviour = Shift_too_wide | Fragment_overflow | Sector_overflow

datatype fault =
    Error_reading_TD0_header
  | Invalid_TD0_header_signature
  | Error_reading_sector_header
  | Invalid_sector_size nat
  | Error_reading_data_header
  | Error_reading_raw_sector_data
  | Error_reading_RLE_data
  | Error_reading_RLE_block_type
  | Error_reading_RLE_block_count
  | Error_reading_RLE_block_data
  | Error_reading_RLE_fragment
  | Unknown_compression_method nat
  | Undefined undefined_behaviour

text \<open>
  \<open>fread(buf, n, 1, fpi) == 1\<close>: \<open>Some\<close> of the \<open>n\<close> bytes read and the rest of the file.
  \<open>fread\<close> returns 0 when fewer than \<open>n\<close> bytes are left, and also when \<open>n\<close> is 0.
\<close>

definition fread1 :: "nat \<Rightarrow> byte list \<Rightarrow> (byte list \<times> byte list) option" where
  "fread1 n f = (if n = 0 \<or> length f < n then None else Some (take n f, drop n f))"

text \<open>
  The decoders below return the bytes stored into \<open>sector_data\<close>, in order from
  \<open>sector_data[0]\<close>, and the rest of the file.

  Method 0: \<open>fread(sector_data, sector_size, 1, fpi)\<close>.
\<close>

definition read_raw :: "nat \<Rightarrow> byte list \<Rightarrow> fault + byte list \<times> byte list" where
  "read_raw sector_size f =
    (case fread1 sector_size f of
       None \<Rightarrow> Inl Error_reading_raw_sector_data
     | Some (d, f') \<Rightarrow> Inr (d, f'))"

text \<open>
  Method 1: \<open>for(i = 0; i < count * 2 && i < sector_size; i += 2)
  { sector_data[i] = b1; sector_data[i+1] = b2; }\<close> with \<open>n = count * 2\<close>.
\<close>

function rle2_fill ::
    "nat \<Rightarrow> nat \<Rightarrow> nat \<Rightarrow> byte \<Rightarrow> byte \<Rightarrow> byte list \<Rightarrow> fault + byte list" where
  "rle2_fill i n sector_size b1 b2 out =
    (if i < n \<and> i < sector_size
     then (if i + 1 < sector_size
           then rle2_fill (i + 2) n sector_size b1 b2 (out @ [b1, b2])
           else Inl (Undefined Sector_overflow))
     else Inr out)"
  by pat_completeness auto
termination
  by (relation "measure (\<lambda>(i, n, sector_size, b1, b2, out). n - i)") auto

declare rle2_fill.simps [simp del]

definition read_rle2 :: "nat \<Rightarrow> byte list \<Rightarrow> fault + byte list \<times> byte list" where
  "read_rle2 sector_size f =
    (case f of
       c0 # c1 # b1 # b2 # f' \<Rightarrow>
         (case rle2_fill 0 ((unat c0 + 256 * unat c1) * 2) sector_size b1 b2 [] of
            Inl e \<Rightarrow> Inl e
          | Inr d \<Rightarrow> Inr (d, f'))
     | _ \<Rightarrow> Inl Error_reading_RLE_data)"

text \<open>
  Method 2, the fragment copy:
  \<open>for(i = 0; i < count && remain >= frag_size; i++)
  { memcpy(p, fragment, frag_size); p += frag_size; remain -= frag_size; }\<close>
\<close>

function frag_copy ::
    "nat \<Rightarrow> nat \<Rightarrow> nat \<Rightarrow> byte list \<Rightarrow> nat \<Rightarrow> byte list \<Rightarrow> nat \<times> byte list" where
  "frag_copy i count frag_size fragment remain out =
    (if i < count \<and> remain \<ge> frag_size
     then frag_copy (i + 1) count frag_size fragment (remain - frag_size)
            (out @ take frag_size fragment)
     else (remain, out))"
  by pat_completeness auto
termination
  by (relation "measure (\<lambda>(i, count, frag_size, fragment, remain, out). count - i)") auto

declare frag_copy.simps [simp del]

text \<open>
  Method 2: \<open>while(remain > 0) { ... }\<close>. \<open>unsigned frag_size = 1 << blocktype\<close> is
  undefined for \<open>blocktype \<ge> 31\<close> (the shift is done in \<open>int\<close>); \<open>fread(fragment,
  frag_size, 1, fpi)\<close> stores up to \<open>frag_size\<close> bytes into \<open>unsigned char fragment[256]\<close>.
\<close>

function rle_blocks :: "nat \<Rightarrow> byte list \<Rightarrow> byte list \<Rightarrow> fault + byte list \<times> byte list" where
  "rle_blocks remain out f =
    (if remain > 0
     then (case f of
             [] \<Rightarrow> Inl Error_reading_RLE_block_type
           | blocktype # f1 \<Rightarrow>
               if blocktype = 0
               then (case f1 of
                       [] \<Rightarrow> Inl Error_reading_RLE_block_count
                     | cnt # f2 \<Rightarrow>
                         (let count = (if unat cnt > remain then remain else unat cnt)
                          in case fread1 count f2 of
                               None \<Rightarrow> Inl Error_reading_RLE_block_data
                             | Some (d, f3) \<Rightarrow> rle_blocks (remain - count) (out @ d) f3))
               else if unat blocktype \<ge> 31 then Inl (Undefined Shift_too_wide)
               else (let frag_size = 2 ^ unat blocktype
                     in case f1 of
                          [] \<Rightarrow> Inl Error_reading_RLE_fragment
                        | cnt # f2 \<Rightarrow>
                            if min frag_size (length f2) > 256
                            then Inl (Undefined Fragment_overflow)
                            else (case fread1 frag_size f2 of
                                    None \<Rightarrow> Inl Error_reading_RLE_fragment
                                  | Some (fragment, f3) \<Rightarrow>
                                      (case frag_copy 0 (unat cnt) frag_size fragment remain out of
                                         (remain', out') \<Rightarrow> rle_blocks remain' out' f3))))
     else Inr (out, f))"
  by pat_completeness auto
termination
  by (relation "measure (\<lambda>(remain, out, f). length f)")
     (auto simp: fread1_def split: if_splits)

declare rle_blocks.simps [simp del]

text \<open>The \<open>switch(Dhead.Dmethod)\<close> of \<open>main\<close>.\<close>

definition read_sector_data :: "byte \<Rightarrow> nat \<Rightarrow> byte list \<Rightarrow> fault + byte list \<times> byte list" where
  "read_sector_data Dmethod sector_size f =
    (if Dmethod = 0 then read_raw sector_size f
     else if Dmethod = 1 then read_rle2 sector_size f
     else if Dmethod = 2 then rle_blocks sector_size [] f
     else Inl (Unknown_compression_method (unat Dmethod)))"

definition SEC_NODAT :: byte where "SEC_NODAT = 0x20"

text \<open>
  The body of the sector loop of \<open>main\<close>: the 6-byte sector header (\<open>Ssize\<close> is its fourth
  byte, \<open>Sflags\<close> its fifth), the size check, the 3-byte data header (\<open>Dmethod\<close> is its
  third byte), the \<open>switch\<close>, and \<open>fwrite(sector_data, sector_size, 1, fpo)\<close>.
  \<open>sector_data\<close> comes from \<open>malloc\<close>; \<open>mem k\<close> is the indeterminate byte found at offset
  \<open>k\<close> of a fresh block, which \<open>fwrite\<close> emits wherever the decoder stored nothing.
  An \<open>Inl\<close> result carries the fault and the globals at the call of \<open>error\<close>; the position
  of \<open>fpi\<close> in it is the one before the read that failed.
\<close>

definition process_sector :: "(nat \<Rightarrow> byte) \<Rightarrow> globals \<Rightarrow> fault \<times> globals + globals" where
  "process_sector mem g =
    (case fread1 6 (fpi (src g)) of
       None \<Rightarrow> Inl (Error_reading_sector_header, g)
     | Some (sh, f1) \<Rightarrow>
         (let g1 = g\<lparr>src := (src g)\<lparr>fpi := f1\<rparr>\<rparr>;
              Ssize = sh ! 3;
              Sflags = sh ! 4
          in if unat Ssize > 6 then Inl (Invalid_sector_size (unat Ssize), g1)
             else (let sector_size = 128 * 2 ^ unat Ssize
                   in if Sflags AND SEC_NODAT = 0
                      then (case fread1 3 f1 of
                              None \<Rightarrow> Inl (Error_reading_data_header, g1)
                            | Some (dh, f2) \<Rightarrow>
                                (let g2 = g1\<lparr>src := (src g1)\<lparr>fpi := f2\<rparr>\<rparr>
                                 in case read_sector_data (dh ! 2) sector_size f2 of
                                      Inl e \<Rightarrow> Inl (e, g2)
                                    | Inr (d, f3) \<Rightarrow>
                                        Inr (g2\<lparr>src := (src g2)\<lparr>fpi := f3\<rparr>,
                                                fpo := fpo g2 @ d
                                                       @ map mem [length d..<sector_size]\<rparr>)))
                      else Inr g1)))"

text \<open>\<open>for(int i = 0; i < Thead.Tsectors; i++) { ... }\<close>, by the number of sectors left.\<close>

fun sectors :: "nat \<Rightarrow> (nat \<Rightarrow> byte) \<Rightarrow> globals \<Rightarrow> fault \<times> globals + globals" where
  "sectors 0 mem g = Inr g"
| "sectors (Suc n) mem g =
    (case process_sector mem g of
       Inl e \<Rightarrow> Inl e
     | Inr g' \<Rightarrow> sectors n mem g')"

text \<open>The sector decoders never lengthen the input file; the track loop terminates by this.\<close>

lemma frag_copy_remain:
  "frag_copy i count frag_size fragment remain out = (r, out') \<Longrightarrow> r \<le> remain"
proof (induction i count frag_size fragment remain out rule: frag_copy.induct)
  case (1 i count frag_size fragment remain out)
  show ?case
  proof (cases "i < count \<and> remain \<ge> frag_size")
    case True
    with "1.prems" have
      "frag_copy (i + 1) count frag_size fragment (remain - frag_size)
         (out @ take frag_size fragment) = (r, out')"
      by (subst (asm) frag_copy.simps) simp
    with "1.IH" True have "r \<le> remain - frag_size" by blast
    then show ?thesis by simp
  next
    case False
    with "1.prems" show ?thesis by (subst (asm) frag_copy.simps) simp
  qed
qed

lemma rle_blocks_fpi_length:
  "rle_blocks remain out f = Inr (d, f') \<Longrightarrow> length f' \<le> length f"
proof (induction remain out f rule: rle_blocks.induct)
  case (1 remain out f)
  show ?case
  proof (cases "remain > 0")
    case False
    with "1.prems" show ?thesis by (subst (asm) rle_blocks.simps) (auto simp: Let_def split: if_splits)
  next
    case True
    note pos = this
    show ?thesis
    proof (cases f)
      case Nil
      with "1.prems" pos show ?thesis by (subst (asm) rle_blocks.simps) (auto simp: Let_def split: if_splits)
    next
      case (Cons blocktype f1)
      note f = this
      show ?thesis
      proof (cases "blocktype = 0")
        case True
        note lit = this
        show ?thesis
        proof (cases f1)
          case Nil
          with "1.prems" pos f lit show ?thesis by (subst (asm) rle_blocks.simps) (auto simp: Let_def split: if_splits)
        next
          case (Cons cnt f2)
          define count where "count = (if unat cnt > remain then remain else unat cnt)"
          show ?thesis
          proof (cases "fread1 count f2")
            case None
            with "1.prems" pos f lit Cons count_def show ?thesis by (subst (asm) rle_blocks.simps) (auto simp: Let_def split: if_splits)
          next
            case (Some a)
            obtain d0 f3 where a: "a = (d0, f3)" by (cases a)
            from Some a have f3: "length f3 \<le> length f2"
              by (auto simp: fread1_def split: if_splits)
            from "1.prems" pos f lit Cons Some a count_def
            have "rle_blocks (remain - count) (out @ d0) f3 = Inr (d, f')"
              by (subst (asm) rle_blocks.simps) (auto simp: Let_def split: if_splits)
            with "1.IH"(1)[OF pos f lit Cons count_def Some a[symmetric]]
            have "length f' \<le> length f3" by simp
            with f3 f Cons show ?thesis by simp
          qed
        qed
      next
        case False
        note frag = this
        show ?thesis
        proof (cases "unat blocktype \<ge> 31")
          case True
          with "1.prems" pos f frag show ?thesis by (subst (asm) rle_blocks.simps) (auto simp: Let_def split: if_splits)
        next
          case False
          note sh = this
          define frag_size :: nat where "frag_size = 2 ^ unat blocktype"
          show ?thesis
          proof (cases f1)
            case Nil
            with "1.prems" pos f frag sh show ?thesis by (subst (asm) rle_blocks.simps) (auto simp: Let_def split: if_splits)
          next
            case (Cons cnt f2)
            show ?thesis
            proof (cases "min frag_size (length f2) > 256")
              case True
              with "1.prems" pos f frag sh Cons frag_size_def show ?thesis by (subst (asm) rle_blocks.simps) (auto simp: Let_def split: if_splits)
            next
              case False
              note ov = this
              show ?thesis
              proof (cases "fread1 frag_size f2")
                case None
                with "1.prems" pos f frag sh Cons ov frag_size_def show ?thesis by (subst (asm) rle_blocks.simps) (auto simp: Let_def split: if_splits)
              next
                case (Some a)
                obtain fragment f3 where a: "a = (fragment, f3)" by (cases a)
                obtain r' out' where fc:
                  "frag_copy 0 (unat cnt) frag_size fragment remain out = (r', out')"
                  by (cases "frag_copy 0 (unat cnt) frag_size fragment remain out")
                from Some a have f3: "length f3 \<le> length f2"
                  by (auto simp: fread1_def split: if_splits)
                from "1.prems" pos f frag sh Cons ov Some a fc frag_size_def
                have "rle_blocks r' out' f3 = Inr (d, f')"
                  by (subst (asm) rle_blocks.simps) (auto simp: Let_def split: if_splits)
                with "1.IH"(2)[OF pos f frag sh frag_size_def Cons ov Some a[symmetric]
                                  fc[symmetric]]
                have "length f' \<le> length f3" by simp
                with f3 f Cons show ?thesis by simp
              qed
            qed
          qed
        qed
      qed
    qed
  qed
qed

lemma read_sector_data_fpi_length:
  "read_sector_data m sector_size f = Inr (d, f') \<Longrightarrow> length f' \<le> length f"
  by (auto simp: read_sector_data_def read_raw_def read_rle2_def fread1_def
           dest: rle_blocks_fpi_length
           split: if_splits option.splits list.splits sum.splits)

lemma process_sector_fpi_length:
  "process_sector mem g = Inr g' \<Longrightarrow> length (fpi (src g')) \<le> length (fpi (src g))"
  by (fastforce simp: process_sector_def fread1_def Let_def
           dest: read_sector_data_fpi_length
           split: if_splits option.splits sum.splits prod.splits)

lemma sectors_fpi_length:
  "sectors n mem g = Inr g' \<Longrightarrow> length (fpi (src g')) \<le> length (fpi (src g))"
proof (induction n arbitrary: g)
  case 0
  then show ?case by simp
next
  case (Suc n)
  then obtain g1 where p: "process_sector mem g = Inr g1" and s: "sectors n mem g1 = Inr g'"
    by (auto split: sum.splits)
  from Suc.IH[OF s] process_sector_fpi_length[OF p] show ?case by simp
qed

text \<open>
  The track loop of \<open>main\<close>: \<open>while(!feof(fpi)) { if(fread(&Thead, sizeof(Thead), 1, fpi)
  != 1) { if(feof(fpi)) break; ... } if(Thead.Tsectors == 0xFF) break; for(...) ... }\<close>.
  A failed read of the 4-byte track header has consumed what was left of the file.
\<close>

function tracks :: "(nat \<Rightarrow> byte) \<Rightarrow> globals \<Rightarrow> fault \<times> globals + globals" where
  "tracks mem g =
    (case fread1 4 (fpi (src g)) of
       None \<Rightarrow> Inr (g\<lparr>src := (src g)\<lparr>fpi := []\<rparr>\<rparr>)
     | Some (th, f1) \<Rightarrow>
         (let g1 = g\<lparr>src := (src g)\<lparr>fpi := f1\<rparr>\<rparr>
          in if th ! 0 = 0xFF then Inr g1
             else (case sectors (unat (th ! 0)) mem g1 of
                     Inl e \<Rightarrow> Inl e
                   | Inr g' \<Rightarrow> tracks mem g')))"
  by pat_completeness auto
termination
proof (relation "measure (\<lambda>(mem, g). length (fpi (src g)))")
  show "wf (measure (\<lambda>(mem :: nat \<Rightarrow> byte, g :: globals). length (fpi (src g))))"
    by simp
next
  fix mem :: "nat \<Rightarrow> byte" and g :: globals and x2 x y xa g1 x2a
  assume rd: "fread1 4 (fpi (src g)) = Some x2" and x2: "(x, y) = x2"
    and g1: "xa = g\<lparr>src := (src g)\<lparr>fpi := y\<rparr>\<rparr>"
    and s: "sectors (unat (x ! 0)) mem xa = Inr x2a"
  from rd x2 have "length y < length (fpi (src g))"
    by (auto simp: fread1_def split: if_splits)
  moreover from sectors_fpi_length[OF s] g1 have "length (fpi (src x2a)) \<le> length y"
    by simp
  ultimately show "((mem, x2a), mem, g) \<in> measure (\<lambda>(mem, g). length (fpi (src g)))"
    by simp
qed

declare tracks.simps [simp del]

text \<open>\<open>fprintf(fpo, "IMD 1.20 %s\r\n", VERSION)\<close> with \<open>VERSION\<close> = \<open>"1.20"\<close>.\<close>

definition imd_header :: "byte list" where
  "imd_header = map (\<lambda>c. of_nat (of_char c)) ''IMD 1.20 1.20'' @ [13, 10]"

text \<open>
  \<open>main\<close> from the read of the 12-byte TD0 header on: the signature is its first two
  bytes (little-endian), \<open>0x4454\<close> or \<open>0x4464\<close>; \<open>init_decompress\<close> runs for \<open>0x4464\<close>.
\<close>

definition main_td0 :: "(nat \<Rightarrow> byte) \<Rightarrow> byte list \<Rightarrow> fault \<times> globals + globals" where
  "main_td0 mem file =
    (let g = globals_start file
     in case fread1 12 file of
          None \<Rightarrow> Inl (Error_reading_TD0_header, g)
        | Some (hdr, f1) \<Rightarrow>
            (let Sig = unat (hdr ! 0) + 256 * unat (hdr ! 1);
                 g1 = g\<lparr>src := (src g)\<lparr>fpi := f1\<rparr>\<rparr>
             in if Sig \<noteq> 0x4454 \<and> Sig \<noteq> 0x4464
                then Inl (Invalid_TD0_header_signature, g1)
                else (let g2 = (if Sig = 0x4464 then init_decompress g1 else g1)
                      in tracks mem (g2\<lparr>fpo := imd_header\<rparr>))))"


section \<open>Reference definitions and sample inputs\<close>

text \<open>
  \<open>fold_bits n i b\<close> reads \<open>n\<close> further bits with \<open>GetBit\<close> and folds them MSB-first into
  \<open>i\<close>: \<open>i = (i << 1) | bit\<close>, \<open>n\<close> times.
\<close>

primrec fold_bits :: "nat \<Rightarrow> uint \<Rightarrow> bitsrc \<Rightarrow> uint \<times> bitsrc" where
  "fold_bits 0 i b = (i, b)"
| "fold_bits (Suc n) i b =
     (case GetBit b of (t, b') \<Rightarrow> fold_bits n (push_bit 1 i OR t) b')"

text \<open>
  \<open>decode_position\<close> in the words of the specification: one byte \<open>i\<close>, then
  \<open>d_len[i>>4]\<close> additional bits folded into \<open>i\<close>, result \<open>(i & 0x3F) | (d_code[i] << 6)\<close>.
  It is compared with \<open>DecodePosition\<close> below.
\<close>

definition DecodePosition_spec :: "bitsrc \<Rightarrow> (uint \<times> bitsrc) option" where
  "DecodePosition_spec b =
    (case GetByte b of (i, b1) \<Rightarrow> do {
       dc \<leftarrow> rd d_code (unat i);
       dl \<leftarrow> rd d_len (unat (drop_bit 4 i));
       (case fold_bits (unat dl) i b1 of
          (i', b2) \<Rightarrow> Some ((i' AND 0x3F) OR push_bit 6 (ucast dc), b2))
     })"

text \<open>
  The globals after \<open>init_decompress\<close> on an input of eight zero bytes, the globals after
  one \<open>getbyte\<close> call from there, and the globals after one \<open>getbyte\<close> call on an empty
  input (which sets \<open>Eof\<close>).
\<close>

definition zeros_state :: globals where
  "zeros_state = init_decompress (globals_start [0, 0, 0, 0, 0, 0, 0, 0])"

definition match_state :: globals where
  "match_state = snd (the (getbyte zeros_state))"

definition eof_state :: globals where
  "eof_state = snd (the (getbyte (init_decompress (globals_start []))))"

text \<open>
  A container with the signature \<open>0x4464\<close>: the 12-byte header, one track header
  announcing one sector, a sector header with size code 0 and no flags, a data header
  with method 0, and 128 payload bytes, all zero.
\<close>

definition compressed_container :: "byte list" where
  "compressed_container =
     [0x64, 0x44, 0, 0, 0, 0, 0, 0, 0, 0, 0, 0] @ [1, 0, 0, 0] @ [0, 0, 1, 0, 0, 0] @ [0, 0, 0]
     @ replicate 128 0"

text \<open>
  What one \<open>getbyte\<close> call may do to the ring buffer: the cursor stays below \<open>SBSIZE\<close>, the
  length is unchanged, and at most the byte at the old cursor position is replaced.
\<close>

definition ring_step :: "globals \<Rightarrow> globals \<Rightarrow> bool" where
  "ring_step g g' \<longleftrightarrow>
     unat (GBr g') < SBSIZE
     \<and> length (ring_buff g') = length (ring_buff g)
     \<and> (ring_buff g' = ring_buff g
          \<or> (unat (GBr g) < SBSIZE \<and> (\<exists>v. ring_buff g' = (ring_buff g)[unat (GBr g) := v])))"


section \<open>The tree invariant\<close>

text \<open>
  Node \<open>p\<close> of the tree is the pair \<open>(freq[p], son[p])\<close>, for \<open>p < TSIZE\<close>. A node is a
  leaf when \<open>son[p] >= TSIZE\<close> (the symbol is \<open>son[p] - TSIZE\<close>); otherwise its two children
  are the nodes \<open>son[p]\<close> and \<open>son[p] + 1\<close>. \<open>leaves\<close> lists the leaves in array order.
\<close>

definition nodes :: "huff \<Rightarrow> (nat \<times> nat) list" where
  "nodes h = zip (freq h) (son h)"

definition is_leaf :: "nat \<times> nat \<Rightarrow> bool" where
  "is_leaf n \<longleftrightarrow> TSIZE \<le> snd n"

definition leaves :: "huff \<Rightarrow> (nat \<times> nat) list" where
  "leaves h = filter is_leaf (nodes h)"

text \<open>A leaf after the rebuild: the frequency \<open>(f + 1) / 2\<close>, the same symbol.\<close>

definition halve :: "nat \<times> nat \<Rightarrow> nat \<times> nat" where
  "halve n = ((fst n + 1) div 2, snd n)"

text \<open>
  The values \<open>son\<close> holds in every tree: one leaf entry \<open>s + TSIZE\<close> for each of the
  \<open>N_CHAR\<close> symbols, and the even indices \<open>0, 2, ..., 2 * (N_CHAR - 2)\<close> for the
  \<open>N_CHAR - 1\<close> internal nodes.
\<close>

definition son_values :: "nat list" where
  "son_values = map (\<lambda>s. s + TSIZE) [0..<N_CHAR] @ map (\<lambda>m. 2 * m) [0..<N_CHAR - 1]"

text \<open>
  The shape of the tree: the arrays have their declared sizes; the nodes are sorted by
  frequency, every frequency is at least 1, and \<open>freq[TSIZE]\<close> is the sentinel \<open>0xFFFF\<close>;
  \<open>son\<close> holds the values above; the children of an internal node \<open>p\<close> are below \<open>p\<close>;
  \<open>parent\<close> of a leaf entry or of a child is the node that names it; \<open>parent[ROOT]\<close> is 0.
\<close>

definition tree_core :: "huff \<Rightarrow> bool" where
  "tree_core h \<longleftrightarrow>
     arrays_ok h
     \<and> sorted (take TSIZE (freq h))
     \<and> (\<forall>p<TSIZE. 1 \<le> freq h ! p)
     \<and> freq h ! TSIZE = 0xFFFF
     \<and> set (son h) = set son_values
     \<and> (\<forall>p<TSIZE. son h ! p < TSIZE \<longrightarrow> son h ! p + 1 < p)
     \<and> (\<forall>p<TSIZE. parent h ! (son h ! p) = p
            \<and> (son h ! p < TSIZE \<longrightarrow> parent h ! (son h ! p + 1) = p))
     \<and> parent h ! ROOT = 0"

text \<open>
  The frequency of every internal node is the sum of the frequencies of its two children,
  except that the internal node \<open>d\<close> is one short (inside the loop of \<open>update\<close>, after a
  child of \<open>d\<close> has been incremented and before \<open>d\<close> has). \<open>tree_sums TSIZE\<close> has no
  exception.
\<close>

definition tree_sums :: "nat \<Rightarrow> huff \<Rightarrow> bool" where
  "tree_sums d h \<longleftrightarrow>
     (\<forall>p<TSIZE. son h ! p < TSIZE \<longrightarrow>
        freq h ! p + (if p = d then 1 else 0) = freq h ! (son h ! p) + freq h ! (son h ! p + 1))"

text \<open>The tree between two calls of \<open>update\<close>.\<close>

definition tree_inv :: "huff \<Rightarrow> bool" where
  "tree_inv h \<longleftrightarrow> tree_core h \<and> tree_sums TSIZE h \<and> freq h ! ROOT \<le> MAX_FREQ"

text \<open>
  The tree after \<open>update\<close> has been called for each symbol of a list in turn (as
  \<open>DecodeChar\<close> does, once per decoded symbol).
\<close>

fun updates :: "huff \<Rightarrow> nat list \<Rightarrow> huff option" where
  "updates h [] = Some h"
| "updates h (s # ss) = (case update h s of None \<Rightarrow> None | Some h' \<Rightarrow> updates h' ss)"

text \<open>
  The invariant of the second loop of the rebuild, on the first \<open>j\<close> nodes \<open>ns\<close> at the
  head of the \<open>j\<close>-th pass (\<open>i\<close> is the loop's other counter, \<open>L\<close> the halved leaves, \<open>T\<close>
  their total frequency): the nodes are sorted, the leaves are \<open>L\<close> in order, the nodes
  from \<open>i\<close> on (those not yet paired) add up to \<open>T\<close>, the internal nodes made so far
  name the pairs \<open>0, 2, ..., i - 2\<close>, and each of them lies above its two children and
  carries their sum.
\<close>

definition rebuild_inv ::
    "(nat \<times> nat) list \<Rightarrow> nat \<Rightarrow> nat \<Rightarrow> nat \<Rightarrow> (nat \<times> nat) list \<Rightarrow> bool" where
  "rebuild_inv L T i j ns \<longleftrightarrow>
     length ns = j \<and> N_CHAR \<le> j \<and> j \<le> TSIZE \<and> i = 2 * (j - N_CHAR)
     \<and> sorted (map fst ns)
     \<and> (\<forall>n \<in> set ns. 1 \<le> fst n)
     \<and> filter is_leaf ns = L
     \<and> sum_list (map fst (drop i ns)) = T
     \<and> set (map snd (filter (\<lambda>n. \<not> is_leaf n) ns)) = (\<lambda>m. 2 * m) ` {0..<j - N_CHAR}
     \<and> (\<forall>p<j. \<not> is_leaf (ns ! p) \<longrightarrow>
            snd (ns ! p) + 1 < p
            \<and> fst (ns ! p) = fst (ns ! snd (ns ! p)) + fst (ns ! (snd (ns ! p) + 1)))"

text \<open>
  The entries of \<open>parent\<close> that belong to node \<open>p\<close>: \<open>son[p]\<close>, and \<open>son[p] + 1\<close> when \<open>p\<close>
  is internal.
\<close>

definition tgt :: "nat list \<Rightarrow> nat \<Rightarrow> nat \<Rightarrow> bool" where
  "tgt sn p x \<longleftrightarrow> x = sn ! p \<or> (sn ! p < TSIZE \<and> x = sn ! p + 1)"

text \<open>
  The invariant of the \<open>do ... while\<close> loop of \<open>update\<close> at the head of the pass for node
  \<open>c\<close>: the shape of the tree, the sums with node \<open>c\<close> one short, every frequency at most
  \<open>MAX_FREQ\<close> and those from \<open>c\<close> up below it. \<open>step_post c h h' c'\<close> is what one pass from
  \<open>(h, c)\<close> to \<open>(h', c')\<close> establishes; the root frequency changes only in the pass for the
  root.
\<close>

definition loop_inv :: "nat \<Rightarrow> huff \<Rightarrow> bool" where
  "loop_inv c h \<longleftrightarrow>
     tree_core h \<and> tree_sums c h \<and> c < TSIZE
     \<and> (\<forall>p<TSIZE. freq h ! p \<le> MAX_FREQ)
     \<and> (\<forall>p. c \<le> p \<and> p < TSIZE \<longrightarrow> freq h ! p < MAX_FREQ)"

definition step_post :: "nat \<Rightarrow> huff \<Rightarrow> huff \<Rightarrow> nat \<Rightarrow> bool" where
  "step_post c h h' c' \<longleftrightarrow>
     c \<le> c' \<and> c' < TSIZE \<and> tree_core h' \<and> tree_sums (parent h' ! c') h'
     \<and> (\<forall>p<TSIZE. freq h' ! p \<le> MAX_FREQ)
     \<and> (\<forall>p. c' < p \<and> p < TSIZE \<longrightarrow> freq h' ! p < MAX_FREQ)
     \<and> (c' = ROOT \<longleftrightarrow> c = ROOT)
     \<and> freq h' ! ROOT = freq h ! ROOT + (if c = ROOT then 1 else 0)"

text \<open>
  The writes to \<open>parent\<close> when the node whose \<open>son\<close> entry is \<open>s\<close> moves to place \<open>t\<close>:
  \<open>parent[s] = t; if(s < TSIZE) parent[s+1] = t;\<close>
\<close>

definition relink :: "nat list \<Rightarrow> nat \<Rightarrow> nat \<Rightarrow> nat list" where
  "relink P s t = (if s < TSIZE then P[s := t, s + 1 := t] else P[s := t])"


section \<open>Auxiliary facts\<close>

lemmas consts_defs =
  SBSIZE_def LASIZE_def THRESHOLD_def N_CHAR_def TSIZE_def ROOT_def MAX_FREQ_def

lemma bind_weak_cong: "m = m' \<Longrightarrow> Option.bind m f = Option.bind m' f"
  by simp

subsection \<open>Words\<close>

lemma uint_less_unat: "uint (w :: uint) < 4096 \<Longrightarrow> unat w < 4096"
proof -
  assume "uint w < 4096"
  then have "w < 4096" by (simp add: word_less_def)
  then show ?thesis by (simp add: word_less_nat_alt)
qed

lemma unat_less_uint: "unat (w :: uint) < 4096 \<Longrightarrow> uint w < 4096"
proof -
  assume "unat w < 4096"
  then have "w < 4096" by (simp add: word_less_nat_alt)
  then show ?thesis by (simp add: word_less_def)
qed

lemma uint_and_3F_less: "uint ((x :: uint) AND 0x3F) < 4096"
proof -
  have "uint (x AND 0x3F) = uint x AND 63" by (simp add: uint_and)
  also have "\<dots> \<le> 63" by (rule AND_upper2) simp
  finally show ?thesis by simp
qed

lemma uint_ucast_byte: "uint (ucast (dc :: byte) :: uint) = uint dc"
  by (rule uint_up_ucast) (simp add: is_up)

lemma unat_ucast_byte: "unat (ucast (dc :: byte) :: uint) = unat dc"
  using uint_ucast_byte[of dc] by (simp only: unat_eq_nat_uint)

lemma uint_push_bit_6_less:
  assumes "(dc :: byte) \<le> 0x3F"
  shows "uint (push_bit 6 (ucast dc :: uint)) < 4096"
proof -
  from assms have u: "unat dc \<le> 63" by (simp add: word_le_nat_alt)
  have "unat (push_bit 6 (ucast dc :: uint))
         = take_bit 32 (push_bit 6 (unat (ucast dc :: uint)))"
    by (simp add: unsigned_push_bit_eq)
  also have "\<dots> \<le> push_bit 6 (unat (ucast dc :: uint))"
    by (rule take_bit_nat_less_eq_self)
  also have "\<dots> = unat dc * 64" by (simp add: unat_ucast_byte push_bit_eq_mult)
  finally have "unat (push_bit 6 (ucast dc :: uint)) < 4096" using u by simp
  then show ?thesis by (rule unat_less_uint)
qed

lemma position_word_less:
  assumes "(dc :: byte) \<le> 0x3F"
  shows "unat (((x :: uint) AND 0x3F) OR push_bit 6 (ucast dc :: uint)) < 4096"
proof -
  have "uint ((x AND 0x3F) OR push_bit 6 (ucast dc :: uint))
          = uint (x AND 0x3F) OR uint (push_bit 6 (ucast dc :: uint))"
    by (rule uint_or)
  also have "\<dots> < 2 ^ 12"
    using uint_and_3F_less[of x] uint_push_bit_6_less[OF assms] by (intro OR_upper) simp_all
  finally show ?thesis by (intro uint_less_unat) simp
qed


lemma mask_SBSIZE_less: "unat ((w :: uint) AND of_nat (SBSIZE - 1)) < SBSIZE"
proof -
  have "w AND 4095 \<le> 4095" by (rule word_and_le1)
  then have "unat (w AND 4095) \<le> unat (4095 :: uint)" by (simp add: word_le_nat_alt)
  then show ?thesis by (simp add: SBSIZE_def)
qed

lemma mask_SBSIZE_less': "unat ((w :: uint) AND (of_nat SBSIZE - 1)) < SBSIZE"
  using mask_SBSIZE_less[of w] by (simp add: SBSIZE_def)


subsection \<open>The tree built by init_decompress\<close>

lemma init_leaves_length:
  "length (son (init_leaves i h)) = length (son h)
   \<and> length (freq (init_leaves i h)) = length (freq h)
   \<and> length (parent (init_leaves i h)) = length (parent h)"
proof (induction i h rule: init_leaves.induct)
  case (1 i h)
  show ?case
  proof (cases "i < N_CHAR")
    case True
    with "1.IH" show ?thesis by (subst (1 2 3) init_leaves.simps) simp
  next
    case False
    then show ?thesis by (subst (1 2 3) init_leaves.simps) simp
  qed
qed

lemma init_leaves_son:
  "k < length (son h) \<Longrightarrow>
   son (init_leaves i h) ! k = (if i \<le> k \<and> k < N_CHAR then k + TSIZE else son h ! k)"
proof (induction i h rule: init_leaves.induct)
  case (1 i h)
  show ?case
  proof (cases "i < N_CHAR")
    case True
    with "1.IH" "1.prems" show ?thesis
      by (subst init_leaves.simps) (auto simp: nth_list_update)
  next
    case False
    then show ?thesis by (subst init_leaves.simps) auto
  qed
qed

lemma init_leaves_freq:
  "k < length (freq h) \<Longrightarrow>
   freq (init_leaves i h) ! k = (if i \<le> k \<and> k < N_CHAR then 1 else freq h ! k)"
proof (induction i h rule: init_leaves.induct)
  case (1 i h)
  show ?case
  proof (cases "i < N_CHAR")
    case True
    with "1.IH" "1.prems" show ?thesis
      by (subst init_leaves.simps) (auto simp: nth_list_update)
  next
    case False
    then show ?thesis by (subst init_leaves.simps) auto
  qed
qed

lemma init_leaves_parent:
  "k < length (parent h) \<Longrightarrow>
   parent (init_leaves i h) ! k
     = (if i + TSIZE \<le> k \<and> k < N_CHAR + TSIZE then k - TSIZE else parent h ! k)"
proof (induction i h rule: init_leaves.induct)
  case (1 i h)
  show ?case
  proof (cases "i < N_CHAR")
    case True
    with "1.IH" "1.prems" show ?thesis
      by (subst init_leaves.simps) (auto simp: nth_list_update)
  next
    case False
    then show ?thesis by (subst init_leaves.simps) auto
  qed
qed

lemma init_nodes_length:
  "length (son (init_nodes i j h)) = length (son h)
   \<and> length (freq (init_nodes i j h)) = length (freq h)
   \<and> length (parent (init_nodes i j h)) = length (parent h)"
proof (induction i j h rule: init_nodes.induct)
  case (1 i j h)
  show ?case
  proof (cases "i \<le> ROOT")
    case True
    with "1.IH" show ?thesis by (subst (1 2 3) init_nodes.simps) simp
  next
    case False
    then show ?thesis by (subst (1 2 3) init_nodes.simps) simp
  qed
qed

lemma init_nodes_son:
  "k < length (son h) \<Longrightarrow>
   son (init_nodes i j h) ! k = (if i \<le> k \<and> k \<le> ROOT then j + 2 * (k - i) else son h ! k)"
proof (induction i j h rule: init_nodes.induct)
  case (1 i j h)
  show ?case
  proof (cases "i \<le> ROOT")
    case True
    have e: "j + 2 + 2 * (k - (i + 1)) = j + 2 * (k - i)" if "i + 1 \<le> k"
      using that by arith
    from True "1.IH" "1.prems" e show ?thesis
      by (subst init_nodes.simps) (auto simp: nth_list_update)
  next
    case False
    then show ?thesis by (subst init_nodes.simps) auto
  qed
qed

lemma init_nodes_parent_out:
  "k < j \<or> j + 2 * (Suc ROOT - i) \<le> k \<Longrightarrow> parent (init_nodes i j h) ! k = parent h ! k"
proof (induction i j h rule: init_nodes.induct)
  case (1 i j h)
  show ?case
  proof (cases "i \<le> ROOT")
    case True
    with "1.prems" have "k < j + 2 \<or> j + 2 + 2 * (Suc ROOT - (i + 1)) \<le> k"
      by arith
    with "1.IH"[OF True] have
      "parent (init_nodes (i + 1) (j + 2)
         (h\<lparr>freq := (freq h)[i := (freq h ! j + freq h ! (j + 1)) mod 2 ^ 32],
            son := (son h)[i := j], parent := (parent h)[j + 1 := i, j := i]\<rparr>)) ! k
       = (parent h)[j + 1 := i, j := i] ! k"
      by simp
    moreover from "1.prems" True have "k \<noteq> j" "k \<noteq> j + 1" by arith+
    ultimately show ?thesis
      using True by (subst init_nodes.simps) simp
  next
    case False
    then show ?thesis by (subst init_nodes.simps) auto
  qed
qed

lemma init_nodes_parent_in:
  "j \<le> k \<Longrightarrow> k < j + 2 * (Suc ROOT - i) \<Longrightarrow> k < length (parent h) \<Longrightarrow>
   parent (init_nodes i j h) ! k = i + (k - j) div 2"
proof (induction i j h rule: init_nodes.induct)
  case (1 i j h)
  from "1.prems" have le: "i \<le> ROOT" by arith
  let ?h' = "h\<lparr>freq := (freq h)[i := (freq h ! j + freq h ! (j + 1)) mod 2 ^ 32],
            son := (son h)[i := j], parent := (parent h)[j + 1 := i, j := i]\<rparr>"
  have unf: "init_nodes i j h = init_nodes (i + 1) (j + 2) ?h'"
    using le by (subst init_nodes.simps) simp
  show ?case
  proof (cases "k < j + 2")
    case True
    then have "parent (init_nodes (i + 1) (j + 2) ?h') ! k = parent ?h' ! k"
      by (intro init_nodes_parent_out) simp
    moreover from True "1.prems" have "k = j \<or> k = j + 1" by arith
    ultimately show ?thesis
      using "1.prems" by (auto simp: unf nth_list_update)
  next
    case False
    then have k: "j + 2 \<le> k" by simp
    have "k < j + 2 + 2 * (Suc ROOT - (i + 1))" using "1.prems" le by arith
    moreover have "k < length (parent ?h')" using "1.prems" by simp
    ultimately have "parent (init_nodes (i + 1) (j + 2) ?h') ! k = i + 1 + (k - (j + 2)) div 2"
      using "1.IH"[OF le] k by blast
    moreover have "i + 1 + (k - (j + 2)) div 2 = i + (k - j) div 2" using k by arith
    ultimately show ?thesis by (simp only: unf)
  qed
qed

lemma init_nodes_freq_out:
  "k < i \<or> ROOT < k \<Longrightarrow> freq (init_nodes i j h) ! k = freq h ! k"
proof (induction i j h rule: init_nodes.induct)
  case (1 i j h)
  show ?case
  proof (cases "i \<le> ROOT")
    case True
    with "1.IH" "1.prems" show ?thesis
      by (subst init_nodes.simps) (auto simp: nth_list_update)
  next
    case False
    then show ?thesis by (subst init_nodes.simps) auto
  qed
qed

lemma init_nodes_freq_in:
  "j + 2 * (ROOT - i) + 1 < ROOT \<Longrightarrow> ROOT < length (freq h) \<Longrightarrow> i \<le> k \<Longrightarrow> k \<le> ROOT \<Longrightarrow>
   freq (init_nodes i j h) ! k
      = (freq (init_nodes i j h) ! (j + 2 * (k - i))
         + freq (init_nodes i j h) ! (j + 2 * (k - i) + 1)) mod 2 ^ 32"
proof (induction i j h rule: init_nodes.induct)
  case (1 i j h)
  from "1.prems" have le: "i \<le> ROOT" by simp
  let ?h' = "h\<lparr>freq := (freq h)[i := (freq h ! j + freq h ! (j + 1)) mod 2 ^ 32],
            son := (son h)[i := j], parent := (parent h)[j + 1 := i, j := i]\<rparr>"
  have unf: "init_nodes i j h = init_nodes (i + 1) (j + 2) ?h'"
    using le by (subst init_nodes.simps) simp
  show ?case
  proof (cases "k = i")
    case True
    from "1.prems" le have ji: "j + 1 < i" by arith
    have "freq (init_nodes (i + 1) (j + 2) ?h') ! i = freq ?h' ! i"
      by (rule init_nodes_freq_out) simp
    moreover have "freq (init_nodes (i + 1) (j + 2) ?h') ! j = freq ?h' ! j"
      using ji by (intro init_nodes_freq_out) simp
    moreover have "freq (init_nodes (i + 1) (j + 2) ?h') ! (j + 1) = freq ?h' ! (j + 1)"
      using ji by (intro init_nodes_freq_out) simp
    ultimately show ?thesis
      using True ji "1.prems"(2) le by (simp add: unf)
  next
    case False
    with "1.prems" have k: "i + 1 \<le> k" by simp
    have c: "j + 2 + 2 * (ROOT - (i + 1)) + 1 < ROOT"
      using "1.prems"(1) k "1.prems"(4) by arith
    have l: "ROOT < length (freq ?h')" using "1.prems"(2) by simp
    have e: "j + 2 + 2 * (k - (i + 1)) = j + 2 * (k - i)" using k by arith
    from "1.IH"[OF le c l k "1.prems"(4)]
    show ?thesis by (simp only: unf e)
  qed
qed

lemma init_tree_arrays_ok: "arrays_ok h \<Longrightarrow> arrays_ok (init_tree h)"
  by (simp add: arrays_ok_def init_tree_def Let_def init_nodes_length init_leaves_length)

lemma init_tree_length:
  "arrays_ok h \<Longrightarrow> length (son (init_tree h)) = 627"
  "arrays_ok h \<Longrightarrow> length (freq (init_tree h)) = 628"
  "arrays_ok h \<Longrightarrow> length (parent (init_tree h)) = 941"
  using init_tree_arrays_ok[of h] by (simp_all add: arrays_ok_def consts_defs)

lemma init_tree_son:
  "arrays_ok h \<Longrightarrow> k < 627 \<Longrightarrow>
   son (init_tree h) ! k = (if k < 314 then k + 627 else 2 * (k - 314))"
  by (simp add: init_tree_def Let_def init_nodes_son init_leaves_son init_leaves_length
        arrays_ok_def consts_defs)

lemma init_tree_parent:
  "arrays_ok h \<Longrightarrow> k < 941 \<Longrightarrow>
   parent (init_tree h) ! k
     = (if 627 \<le> k then k - 627 else if k = 626 then 0 else 314 + k div 2)"
proof -
  assume a: "arrays_ok h" and k: "k < 941"
  let ?h1 = "init_leaves 0 h"
  have len: "length (parent ?h1) = 941" using a by (simp add: init_leaves_length arrays_ok_def consts_defs)
  have len2: "length (parent (init_nodes N_CHAR 0 ?h1)) = 941" using len by (simp add: init_nodes_length)
  show ?thesis
  proof (cases "k < 626")
    case True
    have "parent (init_nodes N_CHAR 0 ?h1) ! k = N_CHAR + (k - 0) div 2"
      using True len by (intro init_nodes_parent_in) (simp_all add: consts_defs)
    with True show ?thesis
      by (simp add: init_tree_def Let_def consts_defs)
  next
    case False
    then have "parent (init_nodes N_CHAR 0 ?h1) ! k = parent ?h1 ! k"
      by (intro init_nodes_parent_out) (simp add: consts_defs)
    with False k len len2 a show ?thesis
      by (auto simp: init_tree_def Let_def consts_defs init_leaves_parent nth_list_update arrays_ok_def)
  qed
qed

lemma init_tree_freq_leaf:
  "arrays_ok h \<Longrightarrow> k < 314 \<Longrightarrow> freq (init_tree h) ! k = 1"
  by (simp add: init_tree_def Let_def init_nodes_freq_out init_leaves_freq init_leaves_length
        init_nodes_length arrays_ok_def consts_defs)

lemma init_tree_freq_top:
  "arrays_ok h \<Longrightarrow> freq (init_tree h) ! 627 = 0xFFFF"
  by (simp add: init_tree_def Let_def init_leaves_length
        init_nodes_length arrays_ok_def consts_defs)

lemma init_tree_freq_node:
  assumes "arrays_ok h" and "314 \<le> k" and "k \<le> 626"
  shows "freq (init_tree h) ! k
     = (freq (init_tree h) ! (2 * (k - 314)) + freq (init_tree h) ! (2 * (k - 314) + 1)) mod 2 ^ 32"
proof -
  let ?h1 = "init_leaves 0 h"
  have len: "length (freq ?h1) = 628" using assms(1) by (simp add: init_leaves_length arrays_ok_def consts_defs)
  have "freq (init_nodes N_CHAR 0 ?h1) ! k
      = (freq (init_nodes N_CHAR 0 ?h1) ! (0 + 2 * (k - N_CHAR))
         + freq (init_nodes N_CHAR 0 ?h1) ! (0 + 2 * (k - N_CHAR) + 1)) mod 2 ^ 32"
    using assms len by (intro init_nodes_freq_in) (simp_all add: consts_defs)
  then show ?thesis
    using assms by (simp add: init_tree_def Let_def consts_defs)
qed

lemma init_tree_freq_value:
  assumes ok: "arrays_ok h" and k: "k < 627"
  shows "freq (init_tree h) ! k =
    (if k < 314 then 1 else if k < 471 then 2 else if k < 549 then 4 else if k < 550 then 6
     else if k < 588 then 8 else if k < 589 then 10 else if k < 608 then 16
     else if k < 609 then 26 else if k < 618 then 32 else if k < 619 then 58
     else if k < 623 then 64 else if k < 624 then 122 else if k < 625 then 128
     else if k < 626 then 186 else 314)"
proof -
  let ?F = "\<lambda>k. freq (init_tree h) ! k"
  note node = init_tree_freq_node[OF ok]
  have r0: "?F k = 1" if "k < 314" for k
    using that by (rule init_tree_freq_leaf[OF ok])
  have r1: "?F k = 2" if "314 \<le> k" "k < 471" for k
  proof -
    from that have c: "0 \<le> 2 * (k - 314)" "2 * (k - 314) + 1 < 314"
      "2 * (k - 314) + 1 = Suc (2 * (k - 314))" by arith+
    from that have n: "?F k = (?F (2 * (k - 314)) + ?F (2 * (k - 314) + 1)) mod 2 ^ 32"
      by (intro node) simp_all
    show ?thesis
    proof -
      have "?F (2 * (k - 314)) = 1" using that by (intro r0) arith+
      moreover have "?F (2 * (k - 314) + 1) = 1" using that by (intro r0) arith+
      ultimately show ?thesis using n by simp
    qed
  qed
  have r2: "?F k = 4" if "471 \<le> k" "k < 549" for k
  proof -
    from that have c: "314 \<le> 2 * (k - 314)" "2 * (k - 314) + 1 < 470"
      "2 * (k - 314) + 1 = Suc (2 * (k - 314))" by arith+
    from that have n: "?F k = (?F (2 * (k - 314)) + ?F (2 * (k - 314) + 1)) mod 2 ^ 32"
      by (intro node) simp_all
    show ?thesis
    proof -
      have "?F (2 * (k - 314)) = 2" using that by (intro r1) arith+
      moreover have "?F (2 * (k - 314) + 1) = 2" using that by (intro r1) arith+
      ultimately show ?thesis using n by simp
    qed
  qed
  have r3: "?F k = 6" if "549 \<le> k" "k < 550" for k
  proof -
    from that have c: "470 \<le> 2 * (k - 314)" "2 * (k - 314) + 1 < 472"
      "2 * (k - 314) + 1 = Suc (2 * (k - 314))" by arith+
    from that have n: "?F k = (?F (2 * (k - 314)) + ?F (2 * (k - 314) + 1)) mod 2 ^ 32"
      by (intro node) simp_all
    show ?thesis
    proof -
      have "?F (2 * (k - 314)) = 2" using that by (intro r1) arith+
      moreover have "?F (2 * (k - 314) + 1) = 4" using that by (intro r2) arith+
      ultimately show ?thesis using n by simp
    qed
  qed
  have r4: "?F k = 8" if "550 \<le> k" "k < 588" for k
  proof -
    from that have c: "472 \<le> 2 * (k - 314)" "2 * (k - 314) + 1 < 548"
      "2 * (k - 314) + 1 = Suc (2 * (k - 314))" by arith+
    from that have n: "?F k = (?F (2 * (k - 314)) + ?F (2 * (k - 314) + 1)) mod 2 ^ 32"
      by (intro node) simp_all
    show ?thesis
    proof -
      have "?F (2 * (k - 314)) = 4" using that by (intro r2) arith+
      moreover have "?F (2 * (k - 314) + 1) = 4" using that by (intro r2) arith+
      ultimately show ?thesis using n by simp
    qed
  qed
  have r5: "?F k = 10" if "588 \<le> k" "k < 589" for k
  proof -
    from that have c: "548 \<le> 2 * (k - 314)" "2 * (k - 314) + 1 < 550"
      "2 * (k - 314) + 1 = Suc (2 * (k - 314))" by arith+
    from that have n: "?F k = (?F (2 * (k - 314)) + ?F (2 * (k - 314) + 1)) mod 2 ^ 32"
      by (intro node) simp_all
    show ?thesis
    proof -
      have "?F (2 * (k - 314)) = 4" using that by (intro r2) arith+
      moreover have "?F (2 * (k - 314) + 1) = 6" using that by (intro r3) arith+
      ultimately show ?thesis using n by simp
    qed
  qed
  have r6: "?F k = 16" if "589 \<le> k" "k < 608" for k
  proof -
    from that have c: "550 \<le> 2 * (k - 314)" "2 * (k - 314) + 1 < 588"
      "2 * (k - 314) + 1 = Suc (2 * (k - 314))" by arith+
    from that have n: "?F k = (?F (2 * (k - 314)) + ?F (2 * (k - 314) + 1)) mod 2 ^ 32"
      by (intro node) simp_all
    show ?thesis
    proof -
      have "?F (2 * (k - 314)) = 8" using that by (intro r4) arith+
      moreover have "?F (2 * (k - 314) + 1) = 8" using that by (intro r4) arith+
      ultimately show ?thesis using n by simp
    qed
  qed
  have r7: "?F k = 26" if "608 \<le> k" "k < 609" for k
  proof -
    from that have c: "588 \<le> 2 * (k - 314)" "2 * (k - 314) + 1 < 590"
      "2 * (k - 314) + 1 = Suc (2 * (k - 314))" by arith+
    from that have n: "?F k = (?F (2 * (k - 314)) + ?F (2 * (k - 314) + 1)) mod 2 ^ 32"
      by (intro node) simp_all
    show ?thesis
    proof -
      have "?F (2 * (k - 314)) = 10" using that by (intro r5) arith+
      moreover have "?F (2 * (k - 314) + 1) = 16" using that by (intro r6) arith+
      ultimately show ?thesis using n by simp
    qed
  qed
  have r8: "?F k = 32" if "609 \<le> k" "k < 618" for k
  proof -
    from that have c: "590 \<le> 2 * (k - 314)" "2 * (k - 314) + 1 < 608"
      "2 * (k - 314) + 1 = Suc (2 * (k - 314))" by arith+
    from that have n: "?F k = (?F (2 * (k - 314)) + ?F (2 * (k - 314) + 1)) mod 2 ^ 32"
      by (intro node) simp_all
    show ?thesis
    proof -
      have "?F (2 * (k - 314)) = 16" using that by (intro r6) arith+
      moreover have "?F (2 * (k - 314) + 1) = 16" using that by (intro r6) arith+
      ultimately show ?thesis using n by simp
    qed
  qed
  have r9: "?F k = 58" if "618 \<le> k" "k < 619" for k
  proof -
    from that have c: "608 \<le> 2 * (k - 314)" "2 * (k - 314) + 1 < 610"
      "2 * (k - 314) + 1 = Suc (2 * (k - 314))" by arith+
    from that have n: "?F k = (?F (2 * (k - 314)) + ?F (2 * (k - 314) + 1)) mod 2 ^ 32"
      by (intro node) simp_all
    show ?thesis
    proof -
      have "?F (2 * (k - 314)) = 26" using that by (intro r7) arith+
      moreover have "?F (2 * (k - 314) + 1) = 32" using that by (intro r8) arith+
      ultimately show ?thesis using n by simp
    qed
  qed
  have r10: "?F k = 64" if "619 \<le> k" "k < 623" for k
  proof -
    from that have c: "610 \<le> 2 * (k - 314)" "2 * (k - 314) + 1 < 618"
      "2 * (k - 314) + 1 = Suc (2 * (k - 314))" by arith+
    from that have n: "?F k = (?F (2 * (k - 314)) + ?F (2 * (k - 314) + 1)) mod 2 ^ 32"
      by (intro node) simp_all
    show ?thesis
    proof -
      have "?F (2 * (k - 314)) = 32" using that by (intro r8) arith+
      moreover have "?F (2 * (k - 314) + 1) = 32" using that by (intro r8) arith+
      ultimately show ?thesis using n by simp
    qed
  qed
  have r11: "?F k = 122" if "623 \<le> k" "k < 624" for k
  proof -
    from that have c: "618 \<le> 2 * (k - 314)" "2 * (k - 314) + 1 < 620"
      "2 * (k - 314) + 1 = Suc (2 * (k - 314))" by arith+
    from that have n: "?F k = (?F (2 * (k - 314)) + ?F (2 * (k - 314) + 1)) mod 2 ^ 32"
      by (intro node) simp_all
    show ?thesis
    proof -
      have "?F (2 * (k - 314)) = 58" using that by (intro r9) arith+
      moreover have "?F (2 * (k - 314) + 1) = 64" using that by (intro r10) arith+
      ultimately show ?thesis using n by simp
    qed
  qed
  have r12: "?F k = 128" if "624 \<le> k" "k < 625" for k
  proof -
    from that have c: "620 \<le> 2 * (k - 314)" "2 * (k - 314) + 1 < 622"
      "2 * (k - 314) + 1 = Suc (2 * (k - 314))" by arith+
    from that have n: "?F k = (?F (2 * (k - 314)) + ?F (2 * (k - 314) + 1)) mod 2 ^ 32"
      by (intro node) simp_all
    show ?thesis
    proof -
      have "?F (2 * (k - 314)) = 64" using that by (intro r10) arith+
      moreover have "?F (2 * (k - 314) + 1) = 64" using that by (intro r10) arith+
      ultimately show ?thesis using n by simp
    qed
  qed
  have r13: "?F k = 186" if "625 \<le> k" "k < 626" for k
  proof -
    from that have c: "622 \<le> 2 * (k - 314)" "2 * (k - 314) + 1 < 624"
      "2 * (k - 314) + 1 = Suc (2 * (k - 314))" by arith+
    from that have n: "?F k = (?F (2 * (k - 314)) + ?F (2 * (k - 314) + 1)) mod 2 ^ 32"
      by (intro node) simp_all
    show ?thesis
    proof -
      have "?F (2 * (k - 314)) = 64" using that by (intro r10) arith+
      moreover have "?F (2 * (k - 314) + 1) = 122" using that by (intro r11) arith+
      ultimately show ?thesis using n by simp
    qed
  qed
  have r14: "?F k = 314" if "626 \<le> k" "k < 627" for k
  proof -
    from that have c: "624 \<le> 2 * (k - 314)" "2 * (k - 314) + 1 < 626"
      "2 * (k - 314) + 1 = Suc (2 * (k - 314))" by arith+
    from that have n: "?F k = (?F (2 * (k - 314)) + ?F (2 * (k - 314) + 1)) mod 2 ^ 32"
      by (intro node) simp_all
    show ?thesis
    proof -
      have "?F (2 * (k - 314)) = 128" using that by (intro r12) arith+
      moreover have "?F (2 * (k - 314) + 1) = 186" using that by (intro r13) arith+
      ultimately show ?thesis using n by simp
    qed
  qed
  show ?thesis
    using k r0[of k] r1[of k] r2[of k] r3[of k] r4[of k] r5[of k] r6[of k] r7[of k] r8[of k]
      r9[of k] r10[of k] r11[of k] r12[of k] r13[of k] r14[of k]
    by (simp split: if_splits)
qed

lemma huff_start_ok: "arrays_ok huff_start"
  by (simp add: arrays_ok_def huff_start_def)

lemmas eval_tree = init_tree_length[OF huff_start_ok] init_tree_son[OF huff_start_ok] init_tree_parent[OF huff_start_ok]
  init_tree_freq_top[OF huff_start_ok] init_tree_freq_value[OF huff_start_ok]

lemmas eval_dec = getbyte_def getbyte_loop.simps getbyte_idle_def getbyte_copy_def
  DecodeChar_def DecodeChar_walk.simps DecodePosition_def DecodePosition_loop.simps
  update_def update_loop.simps update_step_def find_up.simps
  rd_def wr_def GetBit_def GetByte_def GetChar_def init_decompress_def globals_start_def
  d_code_def d_len_def Let_def nth_list_update

section \<open>Bit reader: results\<close>

text \<open>
  C4. The claim is that the bit reader behaves as a 16-bit buffer: \<open>GetBit\<close> returns 0 or 1
  and \<open>GetByte\<close> a value in \<open>0..255\<close>, and bits shifted out never come back. In this port
  \<open>Bitbuff\<close> is a 32-bit \<open>unsigned\<close> and is never masked, so a bit shifted out of position 15
  stays in the upper half-word and is returned again by the next reads. On the file
  \<open>80 00\<close> the second \<open>GetBit\<close> returns 2; on the file \<open>FF FF\<close> a \<open>GetBit\<close> followed by a
  \<open>GetByte\<close> returns 1 and then 511.
\<close>

theorem GetBit_GetByte_not_16bit:
  "fst (GetBit (snd (GetBit (bits_start [0x80, 0x00])))) = 2
   \<and> fst (GetBit (bits_start [0xFF, 0xFF])) = 1
   \<and> fst (GetByte (snd (GetBit (bits_start [0xFF, 0xFF])))) = 511"
  by (simp add: GetBit_def GetByte_def GetChar_def bits_start_def)

subsection \<open>Evaluating the decompressor on the sample inputs\<close>

lemma zeros_state_first_byte: "map_option fst (getbyte zeros_state) = Some 116"
  by (simp add: zeros_state_def eval_dec eval_tree consts_defs cong: bind_weak_cong)

lemma zeros_state_getbyte: "getbyte zeros_state = Some (116, match_state)"
proof -
  from zeros_state_first_byte obtain r where r: "getbyte zeros_state = Some r" and "fst r = 116"
    by (cases "getbyte zeros_state") auto
  then show ?thesis by (cases r) (simp add: match_state_def)
qed

lemma match_state_fields:
  "Advcomp match_state = 0xFF" "Eof (src match_state) = 0" "GBstate match_state = 0"
  "ring_buff match_state = (replicate 4155 0x20)[4036 := 116]" "GBr match_state = 4037"
  by (simp_all add: match_state_def zeros_state_def eval_dec eval_tree consts_defs
        cong: bind_weak_cong)

lemma match_state_symbol:
  "map_option fst (DecodeChar (tree match_state) (src match_state)) = Some 313"
  by (simp add: match_state_def zeros_state_def eval_dec eval_tree consts_defs
        cong: bind_weak_cong)

lemma match_state_position:
  "map_option fst (DecodePosition (snd (snd (the (DecodeChar (tree match_state) (src match_state))))))
     = Some 0"
  by (simp add: match_state_def zeros_state_def eval_dec eval_tree consts_defs
        cong: bind_weak_cong)

lemma match_state_position_byte:
  "fst (GetByte (snd (snd (the (DecodeChar (tree match_state) (src match_state)))))) = 0"
  by (simp add: match_state_def zeros_state_def eval_dec eval_tree consts_defs
        cong: bind_weak_cong)

lemma match_state_next:
  "map_option (\<lambda>(c, g). (c, GBstate g, GBi g, GBj g, GBk g, GBr g)) (getbyte match_state)
     = Some (116, 255, 4036, 60, 1, 4038)"
  by (simp add: match_state_def zeros_state_def eval_dec eval_tree consts_defs
        cong: bind_weak_cong)

lemma eof_state_fields:
  "Advcomp eof_state = 0xFF" "Eof (src eof_state) = 255" "fpi (src eof_state) = []"
  by (simp_all add: eof_state_def eval_dec eval_tree consts_defs cong: bind_weak_cong)

section \<open>getbyte: results\<close>

subsection \<open>End of file\<close>

text \<open>
  C6. \<open>GetChar\<close> on an exhausted file returns 0 and sets \<open>Eof\<close> to 255. With compression
  enabled (\<open>Advcomp \<noteq> 0\<close>) and \<open>Eof\<close> set, \<open>getbyte\<close> returns \<open>-1\<close> and changes nothing but
  the down-counter \<open>GBcheck\<close>: whatever \<open>GBstate\<close> is, the input file and the bit buffer are
  not read, the copy counters \<open>GBk\<close>, \<open>GBj\<close>, \<open>GBi\<close> and the ring buffer stay as they are, and
  \<open>Eof\<close> and \<open>Advcomp\<close> are still set, so the same holds for every later call.
\<close>

theorem getbyte_Eof_sticky:
  "(fpi b = [] \<longrightarrow> GetChar b = (0, b\<lparr>Eof := 255\<rparr>))
   \<and> (Advcomp g \<noteq> 0 \<and> Eof (src g) \<noteq> 0 \<longrightarrow>
        getbyte g = Some (- 1, g\<lparr>GBcheck := GBcheck g - 1\<rparr>))"
  by (simp add: GetChar_def getbyte_def getbyte_loop.simps)

theorem getbyte_Eof_sticky_witness:
  "fpi (src eof_state) = [] \<and> Advcomp eof_state \<noteq> 0 \<and> Eof (src eof_state) \<noteq> 0
   \<and> GetChar (src eof_state) = (0, (src eof_state)\<lparr>Eof := 255\<rparr>)
   \<and> getbyte eof_state = Some (- 1, eof_state\<lparr>GBcheck := GBcheck eof_state - 1\<rparr>)
   \<and> getbyte (eof_state\<lparr>GBstate := 255, GBj := 5, GBk := 2\<rparr>)
       = Some (- 1, eof_state\<lparr>GBstate := 255, GBj := 5, GBk := 2,
                              GBcheck := GBcheck eof_state - 1\<rparr>)"
  using getbyte_Eof_sticky [of "src eof_state" eof_state]
    getbyte_Eof_sticky [of "src eof_state" "eof_state\<lparr>GBstate := 255, GBj := 5, GBk := 2\<rparr>"]
  by (simp add: eof_state_fields)

subsection \<open>The ring-buffer cursor\<close>

lemma getbyte_idle_frame:
  assumes "getbyte_idle g = Some r"
  shows "(case r of
            Inl (c, g') \<Rightarrow> GBr g' = (GBr g + 1) AND of_nat (SBSIZE - 1)
                 \<and> unat (GBr g) < length (ring_buff g)
                 \<and> (\<exists>v. ring_buff g' = (ring_buff g)[unat (GBr g) := v])
          | Inr g' \<Rightarrow> GBr g' = GBr g \<and> ring_buff g' = ring_buff g)"
  using assms
  by (auto simp: getbyte_idle_def wr_def Let_def
           split: Option.bind_splits prod.splits if_splits sum.splits)

lemma getbyte_copy_frame:
  assumes "getbyte_copy g = Some (c, g')"
  shows "GBr g' = (GBr g + 1) AND of_nat (SBSIZE - 1)
         \<and> unat (GBr g) < length (ring_buff g)
         \<and> (\<exists>v. ring_buff g' = (ring_buff g)[unat (GBr g) := v])"
  using assms
  by (auto simp: getbyte_copy_def wr_def rd_def Let_def
           split: Option.bind_splits prod.splits if_splits)


lemma getbyte_loop_ring:
  assumes run: "getbyte_loop g = Some r"
  shows "unat (GBr g) < SBSIZE \<longrightarrow> ring_step g (snd r)"
proof (rule getbyte_loop.raw_induct
         [where P = "\<lambda>g r. unat (GBr g) < SBSIZE \<longrightarrow> ring_step g (snd r)", OF _ run])
  fix f :: "globals \<Rightarrow> (int \<times> globals) option" and g r
  assume IH: "\<And>x y. f x = Some y \<Longrightarrow> unat (GBr x) < SBSIZE \<longrightarrow> ring_step x (snd y)"
    and body: "(if Eof (src g) \<noteq> 0 then Some (- 1, g)
      else (if GBstate g = 0 then getbyte_idle g else Some (Inr g)) \<bind>
           (\<lambda>r. case r of Inl res \<Rightarrow> Some res
                | Inr g1 \<Rightarrow>
                    if GBk g1 < GBj g1 then getbyte_copy g1
                    else f (g1\<lparr>GBstate := 0\<rparr>))) = Some r"
  show "unat (GBr g) < SBSIZE \<longrightarrow> ring_step g (snd r)"
  proof
    assume b: "unat (GBr g) < SBSIZE"
    show "ring_step g (snd r)"
    proof (cases "Eof (src g) \<noteq> 0")
      case True
      with body b show ?thesis by (auto simp: ring_step_def)
    next
      case False
      with body obtain x where x: "(if GBstate g = 0 then getbyte_idle g else Some (Inr g)) = Some x"
        and rest: "(case x of Inl res \<Rightarrow> Some res
                   | Inr g1 \<Rightarrow> if GBk g1 < GBj g1 then getbyte_copy g1
                              else f (g1\<lparr>GBstate := 0\<rparr>)) = Some r"
        by (auto split: Option.bind_splits)
      show ?thesis
      proof (cases x)
        case (Inl res)
        with x have i: "getbyte_idle g = Some (Inl res)" by (auto split: if_splits)
        from Inl rest have r: "r = res" by simp
        from getbyte_idle_frame[OF i] b r show ?thesis
          by (cases res) (auto simp: ring_step_def mask_SBSIZE_less')
      next
        case (Inr g1)
        with x have same: "GBr g1 = GBr g \<and> ring_buff g1 = ring_buff g"
          using getbyte_idle_frame[of g "Inr g1"] by (auto split: if_splits)
        show ?thesis
        proof (cases "GBk g1 < GBj g1")
          case True
          with Inr rest have c: "getbyte_copy g1 = Some r" by simp
          from getbyte_copy_frame[of g1 "fst r" "snd r"] c same b show ?thesis
            by (auto simp: ring_step_def mask_SBSIZE_less')
        next
          case False
          with Inr rest have "f (g1\<lparr>GBstate := 0\<rparr>) = Some r" by simp
          from IH[OF this] same b show ?thesis
            by (simp add: ring_step_def)
        qed
      qed
    qed
  qed
qed


text \<open>
  C9. \<open>init_decompress\<close> sets \<open>GBr\<close> to \<open>SBSIZE - LASIZE\<close>. Every \<open>getbyte\<close> call that
  starts with \<open>GBr < SBSIZE\<close> and returns ends with \<open>GBr < SBSIZE\<close>; it leaves the length
  of \<open>ring_buff\<close> unchanged and either leaves \<open>ring_buff\<close> as it was or has stored one byte
  at index \<open>GBr\<close> (the value on entry, which is below \<open>SBSIZE\<close>).
\<close>

theorem getbyte_GBr_in_ring:
  "unat (GBr (init_decompress g0)) = SBSIZE - LASIZE
   \<and> (unat (GBr g) < SBSIZE \<and> getbyte g = Some (c, g') \<longrightarrow>
        unat (GBr g') < SBSIZE
        \<and> length (ring_buff g') = length (ring_buff g)
        \<and> (ring_buff g' = ring_buff g
             \<or> (\<exists>v. ring_buff g' = (ring_buff g)[unat (GBr g) := v])))"
proof (intro conjI impI)
  show "unat (GBr (init_decompress g0)) = SBSIZE - LASIZE"
    by (simp add: init_decompress_def consts_defs)
next
  assume a: "unat (GBr g) < SBSIZE \<and> getbyte g = Some (c, g')"
  have "ring_step g g'"
  proof (cases "Advcomp g = 0")
    case True
    with a show ?thesis
      by (auto simp: getbyte_def Let_def ring_step_def split: list.splits)
  next
    case False
    with a have "getbyte_loop (g\<lparr>GBcheck := GBcheck g - 1\<rparr>) = Some (c, g')"
      by (simp add: getbyte_def Let_def)
    from getbyte_loop_ring[OF this] a show ?thesis
      by (simp add: ring_step_def)
  qed
  then show "unat (GBr g') < SBSIZE" "length (ring_buff g') = length (ring_buff g)"
    "ring_buff g' = ring_buff g \<or> (\<exists>v. ring_buff g' = (ring_buff g)[unat (GBr g) := v])"
    by (auto simp: ring_step_def)
qed


theorem getbyte_GBr_in_ring_witness:
  "unat (GBr zeros_state) < SBSIZE \<and> getbyte zeros_state = Some (116, match_state)
   \<and> unat (GBr match_state) < SBSIZE
   \<and> length (ring_buff match_state) = length (ring_buff zeros_state)
   \<and> (ring_buff match_state = ring_buff zeros_state
        \<or> (\<exists>v. ring_buff match_state = (ring_buff zeros_state)[unat (GBr zeros_state) := v]))"
proof -
  have r: "unat (GBr zeros_state) < SBSIZE"
    by (simp add: zeros_state_def init_decompress_def consts_defs)
  from getbyte_GBr_in_ring [of zeros_state zeros_state 116 match_state] r zeros_state_getbyte
  show ?thesis by simp
qed

section \<open>DecodePosition: results\<close>

lemma d_code_bound: "\<forall>x \<in> set d_code. x \<le> 0x3F"
  by (simp add: d_code_def)

lemma d_code_length: "length d_code = 256"
  by (simp add: d_code_def)

lemma d_len_length: "length d_len = 16"
  by (simp add: d_len_def)

lemma d_len_nonzero: "\<forall>x \<in> set d_len. x \<noteq> 0"
  by (simp add: d_len_def)

lemma DecodePosition_loop_fold:
  "j \<noteq> 0 \<Longrightarrow> DecodePosition_loop j i b = fold_bits (unat j - 1) i b"
proof (induction j i b rule: DecodePosition_loop.induct)
  case (1 j i b)
  show ?case
  proof (cases "j - 1 \<noteq> 0")
    case True
    obtain t b' where g: "GetBit b = (t, b')" by (cases "GetBit b")
    from True have "unat (j - 1) \<noteq> 0" by (simp add: unat_eq_zero)
    moreover from "1.prems" have "unat (j - 1) = unat j - 1" by (rule unat_minus_one)
    ultimately have s: "unat j - 1 = Suc (unat (j - 1) - 1)" by simp
    have "DecodePosition_loop j i b = DecodePosition_loop (j - 1) (push_bit 1 i OR t) b'"
      using True g by (subst DecodePosition_loop.simps) simp
    also have "\<dots> = fold_bits (unat (j - 1) - 1) (push_bit 1 i OR t) b'"
      using "1.IH"[OF True g[symmetric] True] .
    also have "\<dots> = fold_bits (unat j - 1) i b"
      by (simp only: s fold_bits.simps g prod.case)
    finally show ?thesis .
  next
    case False
    then have "j = 1" by simp
    then show ?thesis by (subst DecodePosition_loop.simps) simp
  qed
qed


text \<open>
  C3 (as amended). \<open>DecodePosition\<close> reads one byte \<open>i\<close> with \<open>GetByte\<close>; when \<open>i\<close> is a
  valid index of the 256-entry table \<open>d_code\<close>, it reads \<open>d_len[i>>4] - 1\<close> further bits,
  folded MSB-first into \<open>i\<close>, and returns \<open>(i & 0x3F) | (d_code[i] << 6)\<close> with \<open>d_code\<close>
  indexed by the byte first read; the result is below \<open>SBSIZE\<close>.
\<close>

theorem DecodePosition_distance:
  assumes gb: "GetByte b = (i, b1)" and i: "unat i < 256"
  shows "DecodePosition b
           = Some ((fst (fold_bits (unat (d_len ! unat (drop_bit 4 i)) - 1) i b1) AND 0x3F)
                     OR push_bit 6 (ucast (d_code ! unat i)),
                   snd (fold_bits (unat (d_len ! unat (drop_bit 4 i)) - 1) i b1))
         \<and> unat (fst (the (DecodePosition b))) < SBSIZE"
proof -
  let ?dl = "d_len ! unat (drop_bit 4 i)"
  let ?dc = "d_code ! unat i"
  have "unat (drop_bit 4 i) = unat i div 16"
    by (simp add: drop_bit_eq_div unat_div)
  with i have k: "unat (drop_bit 4 i) < 16" by simp
  then have "?dl \<in> set d_len" by (simp add: d_len_length)
  with d_len_nonzero have dlnz: "?dl \<noteq> 0" by blast
  have nz: "(ucast ?dl :: uint) \<noteq> 0"
  proof
    assume "(ucast ?dl :: uint) = 0"
    then have "unat (ucast ?dl :: uint) = 0" by simp
    then have "unat ?dl = 0" by (simp only: unat_ucast_byte)
    with dlnz show False by (simp add: unat_eq_zero)
  qed
  from i have "?dc \<in> set d_code" by (simp add: d_code_length)
  with d_code_bound have dc: "?dc \<le> 0x3F" by blast
  let ?fb = "fold_bits (unat ?dl - 1) i b1"
  have "DecodePosition_loop (ucast ?dl) i b1 = ?fb"
    using DecodePosition_loop_fold[OF nz, of i b1] by (simp only: unat_ucast_byte)
  then have r: "DecodePosition b
      = Some ((fst ?fb AND 0x3F) OR push_bit 6 (ucast ?dc), snd ?fb)"
    using gb i k
    by (simp add: DecodePosition_def rd_def d_code_length d_len_length Let_def case_prod_beta)
  have "unat ((fst ?fb AND 0x3F) OR push_bit 6 (ucast ?dc :: uint)) < SBSIZE"
    using position_word_less[OF dc, of "fst ?fb"] by (simp add: SBSIZE_def)
  with r show ?thesis by simp
qed


theorem DecodePosition_distance_witness:
  "GetByte (bits_start [0x00, 0xFF]) = (0, bits_start [0xFF]) \<and> unat (0 :: uint) < 256
   \<and> DecodePosition (bits_start [0x00, 0xFF])
       = Some (1, \<lparr>fpi = [], Eof = 0, Bits = 7, Bitbuff = 0x1FE00\<rparr>)
   \<and> unat (fst (the (DecodePosition (bits_start [0x00, 0xFF])))) < SBSIZE"
proof -
  have g: "GetByte (bits_start [0x00, 0xFF]) = (0, bits_start [0xFF])"
    by (simp add: GetByte_def GetChar_def bits_start_def)
  from DecodePosition_distance [OF g] g show ?thesis
    by (simp add: d_len_def d_code_def GetBit_def GetChar_def bits_start_def SBSIZE_def)
qed

lemma fold_bits_numeral:
  "fold_bits (numeral k) i b
     = (case GetBit b of (t, b') \<Rightarrow> fold_bits (pred_numeral k) (push_bit 1 i OR t) b')"
  by (simp add: numeral_eq_Suc)


text \<open>
  The claim as stated fails on the file \<open>00 FF\<close>: the byte read is 0 and \<open>d_len[0] = 2\<close>;
  the code reads one further bit and returns 1, reading \<open>d_len[0]\<close> further bits gives 3.
  And not every input gives a distance: after a \<open>GetBit\<close> on the file \<open>FF FF\<close> the byte
  returned by \<open>GetByte\<close> is 511, outside \<open>d_code\<close>.
\<close>

theorem DecodePosition_bits_counterexample:
  "map_option fst (DecodePosition (bits_start [0x00, 0xFF])) = Some 1
   \<and> map_option fst (DecodePosition_spec (bits_start [0x00, 0xFF])) = Some 3
   \<and> DecodePosition (snd (GetBit (bits_start [0xFF, 0xFF]))) = None"
proof (intro conjI)
  show "map_option fst (DecodePosition (bits_start [0x00, 0xFF])) = Some 1"
    by (simp add: DecodePosition_def DecodePosition_loop.simps
        GetByte_def GetBit_def GetChar_def bits_start_def rd_def d_code_def d_len_def Let_def)
  show "map_option fst (DecodePosition_spec (bits_start [0x00, 0xFF])) = Some 3"
    by (simp add: DecodePosition_spec_def
        GetByte_def GetBit_def GetChar_def bits_start_def rd_def d_code_def d_len_def Let_def
        fold_bits_numeral)
  show "DecodePosition (snd (GetBit (bits_start [0xFF, 0xFF]))) = None"
    by (simp add: DecodePosition_def
        GetByte_def GetBit_def GetChar_def bits_start_def rd_def d_code_length Let_def)
qed

section \<open>getbyte: start of a string copy\<close>

lemma match_length_word:
  assumes "256 \<le> c" and "c < 2 ^ 32"
  shows "unat (of_nat c - 255 + of_nat THRESHOLD :: uint) = c - 255 + THRESHOLD"
proof -
  have "(of_nat c - 255 + of_nat THRESHOLD :: uint) = of_nat c - of_nat 253"
    by (simp add: THRESHOLD_def)
  also have "\<dots> = of_nat (c - 253)"
    using assms(1) by (simp only: of_nat_diff[symmetric, of 253 c])
  finally have "unat (of_nat c - 255 + of_nat THRESHOLD :: uint) = unat (of_nat (c - 253) :: uint)"
    by simp
  also have "\<dots> = c - 253"
    using assms(2) by (simp add: unat_of_nat)
  finally show ?thesis using assms(1) by (simp add: THRESHOLD_def)
qed


text \<open>
  The start of a string copy for a given result of \<open>DecodePosition\<close>.
\<close>

lemma getbyte_begins_match_at:
  assumes adv: "Advcomp g \<noteq> 0" and eof: "Eof (src g) = 0" and idle: "GBstate g = 0"
    and dc: "DecodeChar (tree g) (src g) = Some (c, h', b')"
    and c: "256 \<le> c" "c < 2 ^ 32"
    and dp: "DecodePosition b' = Some (pos, b'')"
    and len: "length (ring_buff g) = SBSIZE + LASIZE - 1"
    and r: "unat (GBr g) < SBSIZE"
  shows "getbyte_idle (g\<lparr>GBcheck := GBcheck g - 1\<rparr>)
           = Some (Inr (g\<lparr>GBcheck := GBcheck g - 1, tree := h', src := b'', GBstate := 255,
                           GBi := (GBr g - pos - 1) AND of_nat (SBSIZE - 1),
                           GBj := of_nat c - 255 + of_nat THRESHOLD,
                           GBk := 0\<rparr>))
         \<and> unat (of_nat c - 255 + of_nat THRESHOLD :: uint) = c - 255 + THRESHOLD
         \<and> getbyte g
           = Some (uint (ring_buff g ! unat ((GBr g - pos - 1) AND of_nat (SBSIZE - 1))),
                   g\<lparr>GBcheck := GBcheck g - 1, tree := h', src := b'', GBstate := 255,
                     GBi := (GBr g - pos - 1) AND of_nat (SBSIZE - 1),
                     GBj := of_nat c - 255 + of_nat THRESHOLD,
                     GBk := 1,
                     ring_buff := (ring_buff g)
                        [unat (GBr g) :=
                           ring_buff g ! unat ((GBr g - pos - 1) AND of_nat (SBSIZE - 1))],
                     GBr := (GBr g + 1) AND of_nat (SBSIZE - 1)\<rparr>)"
proof -
  let ?g0 = "g\<lparr>GBcheck := GBcheck g - 1\<rparr>"
  let ?gi = "(GBr g - pos - 1) AND of_nat (SBSIZE - 1) :: uint"
  let ?gj = "of_nat c - 255 + of_nat THRESHOLD :: uint"
  let ?gm = "g\<lparr>GBcheck := GBcheck g - 1, tree := h', src := b'', GBstate := 255,
               GBi := ?gi, GBj := ?gj, GBk := 0\<rparr>"
  have idle_res: "getbyte_idle ?g0 = Some (Inr ?gm)"
    using dc c(1) dp by (simp add: getbyte_idle_def Let_def)
  have ml: "unat ?gj = c - 255 + THRESHOLD"
    using c by (rule match_length_word)
  then have "unat ?gj \<noteq> 0" using c(1) by (simp add: THRESHOLD_def)
  then have pos_len: "0 < ?gj" by (simp add: word_greater_zero_iff unat_eq_zero)
  have "unat ?gi < SBSIZE" by (rule mask_SBSIZE_less)
  then have rdi: "unat ?gi < length (ring_buff g)" using len by (simp add: consts_defs)
  have wri: "unat (GBr g) < length (ring_buff g)" using r len by (simp add: consts_defs)
  have copy: "getbyte_copy ?gm
     = Some (uint (ring_buff g ! unat ?gi),
             ?gm\<lparr>GBk := 1, ring_buff := (ring_buff g)[unat (GBr g) := ring_buff g ! unat ?gi],
                  GBr := (GBr g + 1) AND of_nat (SBSIZE - 1)\<rparr>)"
    using rdi wri by (simp add: getbyte_copy_def rd_def wr_def)
  have "getbyte g = getbyte_loop ?g0"
    using adv by (simp add: getbyte_def Let_def)
  also have "\<dots> = getbyte_copy ?gm"
    using eof idle idle_res pos_len by (subst getbyte_loop.simps) simp
  finally have "getbyte g = getbyte_copy ?gm" .
  with copy idle_res ml show ?thesis by simp
qed


text \<open>
  \<open>DecodePosition\<close> returns a distance whenever the byte it reads with \<open>GetByte\<close> is a valid
  index of \<open>d_code\<close>.
\<close>

lemma DecodePosition_returns:
  assumes gb: "GetByte b = (i, b1)" and i: "unat i < 256"
  shows "\<exists>pos b2. DecodePosition b = Some (pos, b2)"
proof -
  have "unat (drop_bit 4 i) = unat i div 16"
    by (simp add: drop_bit_eq_div unat_div)
  with i have k: "unat (drop_bit 4 i) < 16" by simp
  show ?thesis
    using gb i k
    by (simp add: DecodePosition_def rd_def d_code_length d_len_length Let_def case_prod_beta)
qed

text \<open>
  C2 (as amended). Let \<open>getbyte\<close> be called with compression enabled (\<open>Advcomp \<noteq> 0\<close>), \<open>Eof\<close>
  clear and \<open>GBstate = 0\<close> (idle), the ring buffer of its declared size and the cursor
  \<open>GBr\<close> below \<open>SBSIZE\<close>. Whenever \<open>DecodeChar\<close> returns a symbol \<open>c \<ge> 256\<close> (a 32-bit
  unsigned value) and the byte that \<open>DecodePosition\<close> then reads with \<open>GetByte\<close> is in
  \<open>0..255\<close>, \<open>DecodePosition\<close> returns a distance \<open>pos\<close>, and the block \<open>if(!GBstate) { ... }\<close>
  sets \<open>GBstate = 255\<close>, \<open>GBj = c - 255 + THRESHOLD\<close>, \<open>GBi = (GBr - pos - 1) & (SBSIZE-1)\<close>
  and \<open>GBk = 0\<close>; the same call then copies the first byte of the string, so \<open>getbyte\<close>
  returns \<open>ring_buff[GBi]\<close> with \<open>GBk = 1\<close>. The match length is \<open>c - 255 + THRESHOLD\<close>, not
  \<open>c - 256 + THRESHOLD\<close>.
\<close>

theorem getbyte_begins_match:
  assumes adv: "Advcomp g \<noteq> 0" and eof: "Eof (src g) = 0" and idle: "GBstate g = 0"
    and dc: "DecodeChar (tree g) (src g) = Some (c, h', b')"
    and c: "256 \<le> c" "c < 2 ^ 32"
    and gb: "GetByte b' = (i, b1)" and i: "unat i < 256"
    and len: "length (ring_buff g) = SBSIZE + LASIZE - 1"
    and r: "unat (GBr g) < SBSIZE"
  shows "\<exists>pos b''.
           DecodePosition b' = Some (pos, b'')
         \<and> getbyte_idle (g\<lparr>GBcheck := GBcheck g - 1\<rparr>)
           = Some (Inr (g\<lparr>GBcheck := GBcheck g - 1, tree := h', src := b'', GBstate := 255,
                           GBi := (GBr g - pos - 1) AND of_nat (SBSIZE - 1),
                           GBj := of_nat c - 255 + of_nat THRESHOLD,
                           GBk := 0\<rparr>))
         \<and> unat (of_nat c - 255 + of_nat THRESHOLD :: uint) = c - 255 + THRESHOLD
         \<and> getbyte g
           = Some (uint (ring_buff g ! unat ((GBr g - pos - 1) AND of_nat (SBSIZE - 1))),
                   g\<lparr>GBcheck := GBcheck g - 1, tree := h', src := b'', GBstate := 255,
                     GBi := (GBr g - pos - 1) AND of_nat (SBSIZE - 1),
                     GBj := of_nat c - 255 + of_nat THRESHOLD,
                     GBk := 1,
                     ring_buff := (ring_buff g)
                        [unat (GBr g) :=
                           ring_buff g ! unat ((GBr g - pos - 1) AND of_nat (SBSIZE - 1))],
                     GBr := (GBr g + 1) AND of_nat (SBSIZE - 1)\<rparr>)"
proof -
  from DecodePosition_returns [OF gb i] obtain pos b'' where
    dp: "DecodePosition b' = Some (pos, b'')" by blast
  note m = getbyte_begins_match_at [OF adv eof idle dc c dp len r]
  show ?thesis
    by (rule exI [of _ pos], rule exI [of _ b'']) (rule conjI [OF dp m])
qed

theorem getbyte_begins_match_witness:
  "Advcomp match_state \<noteq> 0 \<and> Eof (src match_state) = 0 \<and> GBstate match_state = 0
   \<and> fst (the (DecodeChar (tree match_state) (src match_state))) = 313
   \<and> fst (GetByte (snd (snd (the (DecodeChar (tree match_state) (src match_state)))))) = 0
   \<and> length (ring_buff match_state) = SBSIZE + LASIZE - 1
   \<and> unat (GBr match_state) < SBSIZE
   \<and> fst (the (getbyte match_state)) = 116
   \<and> GBstate (snd (the (getbyte match_state))) = 255
   \<and> GBj (snd (the (getbyte match_state))) = 60
   \<and> GBi (snd (the (getbyte match_state))) = 4036
   \<and> GBk (snd (the (getbyte match_state))) = 1"
proof -
  from match_state_symbol obtain y where
    y: "DecodeChar (tree match_state) (src match_state) = Some y" and "fst y = 313"
    by (cases "DecodeChar (tree match_state) (src match_state)") auto
  then obtain h' b' where dc: "DecodeChar (tree match_state) (src match_state) = Some (313, h', b')"
    by (cases y) auto
  obtain i b1 where gb: "GetByte b' = (i, b1)" by (cases "GetByte b'")
  from match_state_position_byte dc gb have i0: "i = 0" by simp
  then have i: "unat i < 256" by simp
  have len: "length (ring_buff match_state) = SBSIZE + LASIZE - 1"
    by (simp add: match_state_fields consts_defs)
  have r: "unat (GBr match_state) < SBSIZE"
    by (simp add: match_state_fields consts_defs)
  from getbyte_begins_match [of match_state 313 h' b' i b1, OF _ _ _ dc _ _ gb i len r]
  obtain pos b'' where dp: "DecodePosition b' = Some (pos, b'')"
    and gbyte: "getbyte match_state
           = Some (uint (ring_buff match_state
                          ! unat ((GBr match_state - pos - 1) AND of_nat (SBSIZE - 1))),
                   match_state\<lparr>GBcheck := GBcheck match_state - 1, tree := h', src := b'',
                     GBstate := 255,
                     GBi := (GBr match_state - pos - 1) AND of_nat (SBSIZE - 1),
                     GBj := of_nat 313 - 255 + of_nat THRESHOLD,
                     GBk := 1,
                     ring_buff := (ring_buff match_state)
                        [unat (GBr match_state) :=
                           ring_buff match_state
                             ! unat ((GBr match_state - pos - 1) AND of_nat (SBSIZE - 1))],
                     GBr := (GBr match_state + 1) AND of_nat (SBSIZE - 1)\<rparr>)"
    by (auto simp: match_state_fields)
  from match_state_position dc dp have p0: "pos = 0" by simp
  show ?thesis
    using gbyte len r
    by (simp add: match_state_fields dc gb i0 p0 consts_defs)
qed

text \<open>
  The claim as stated fails in \<open>match_state\<close>: \<open>DecodeChar\<close> returns 313, \<open>getbyte\<close> enters
  the copying state, and the match length is 60, not \<open>313 - 256 + THRESHOLD = 59\<close>.
\<close>

theorem getbyte_match_length_counterexample:
  "GBstate match_state = 0
   \<and> fst (the (DecodeChar (tree match_state) (src match_state))) = 313
   \<and> GBstate (snd (the (getbyte match_state))) = 255
   \<and> GBj (snd (the (getbyte match_state))) \<noteq> 313 - 256 + of_nat THRESHOLD"
proof -
  from match_state_next obtain r where
    r: "getbyte match_state = Some r" and "GBstate (snd r) = 255" and "GBj (snd r) = 60"
    by (cases "getbyte match_state") auto
  moreover from match_state_symbol
  have "fst (the (DecodeChar (tree match_state) (src match_state))) = 313"
    by (cases "DecodeChar (tree match_state) (src match_state)") auto
  ultimately show ?thesis
    by (simp add: match_state_fields THRESHOLD_def)
qed

section \<open>Sector payloads: results\<close>

lemma frag_copy_closed:
  "0 < fs \<Longrightarrow>
   frag_copy i count fs fragment remain out =
     (remain - min (count - i) (remain div fs) * fs,
      out @ concat (replicate (min (count - i) (remain div fs)) (take fs fragment)))"
proof (induction i count fs fragment remain out rule: frag_copy.induct)
  case (1 i count fs fragment remain out)
  show ?case
  proof (cases "i < count \<and> remain \<ge> fs")
    case True
    then have d: "remain div fs = Suc ((remain - fs) div fs)"
      using "1.prems" by (simp add: le_div_geq)
    from True have c: "count - i = Suc (count - (i + 1))" by arith
    have m: "min (count - i) (remain div fs)
               = Suc (min (count - (i + 1)) ((remain - fs) div fs))"
      unfolding d c by (rule min_Suc_Suc)
    have "frag_copy i count fs fragment remain out
            = frag_copy (i + 1) count fs fragment (remain - fs) (out @ take fs fragment)"
      using True by (subst frag_copy.simps) simp
    also have "\<dots> = (remain - fs - min (count - (i + 1)) ((remain - fs) div fs) * fs,
        (out @ take fs fragment)
        @ concat (replicate (min (count - (i + 1)) ((remain - fs) div fs)) (take fs fragment)))"
      using "1.IH"[OF True "1.prems"] .
    finally show ?thesis
      by (simp add: m)
  next
    case False
    then have z: "min (count - i) (remain div fs) = 0"
      using "1.prems" by (auto simp: min_def div_eq_0_iff)
    from False have "frag_copy i count fs fragment remain out = (remain, out)"
      by (subst frag_copy.simps) auto
    then show ?thesis
      by (simp add: z)
  qed
qed

lemma rle_blocks_fragment_run:
  assumes "0 < remain" and "blocktype \<noteq> 0" and "unat blocktype \<le> 8"
    and "2 ^ unat blocktype \<le> length f2"
  shows "rle_blocks remain out (blocktype # cnt # f2) =
           rle_blocks
             (remain - min (unat cnt) (remain div 2 ^ unat blocktype) * 2 ^ unat blocktype)
             (out @ concat (replicate (min (unat cnt) (remain div 2 ^ unat blocktype))
                              (take (2 ^ unat blocktype) f2)))
             (drop (2 ^ unat blocktype) f2)"
proof -
  have le: "(2::nat) ^ unat blocktype \<le> 2 ^ 8"
    using assms(3) by (rule power_increasing) simp
  then have ov: "\<not> 256 < min ((2::nat) ^ unat blocktype) (length f2)" by simp
  have rdok: "fread1 (2 ^ unat blocktype) f2
               = Some (take (2 ^ unat blocktype) f2, drop (2 ^ unat blocktype) f2)"
    using assms(4) by (simp add: fread1_def)
  show ?thesis
    using assms(1,2,3) ov
    by (subst rle_blocks.simps)
       (simp add: Let_def rdok frag_copy_closed del: min_less_iff_conj)
qed


lemma rle_blocks_fragment_example:
  "rle_blocks 4 [] [0x01, 0x02, 0xFF, 0xEE] = Inr ([0xFF, 0xEE, 0xFF, 0xEE], [])"
proof -
  have c: "concat (replicate 2 [0xFF, 0xEE :: byte]) = [0xFF, 0xEE, 0xFF, 0xEE]"
    by (simp add: numeral_2_eq_2)
  have "rle_blocks 4 [] [0x01, 0x02, 0xFF, 0xEE]
          = rle_blocks 0 (concat (replicate 2 [0xFF, 0xEE])) []"
    using rle_blocks_fragment_run [of 4 1 "[0xFF, 0xEE]" "[]" 2] by simp
  then have "rle_blocks 4 [] [0x01, 0x02, 0xFF, 0xEE] = rle_blocks 0 [0xFF, 0xEE, 0xFF, 0xEE] []"
    by (simp only: c)
  also have "\<dots> = Inr ([0xFF, 0xEE, 0xFF, 0xEE], [])"
    by (subst rle_blocks.simps) simp
  finally show ?thesis .
qed

text \<open>
  C7. For block types 1 to 8 a fragment run behaves as claimed (\<open>rle_blocks_fragment_run\<close>,
  \<open>rle_blocks_fragment_example\<close>). For block type 9 the fragment size is 512, and
  \<open>fread(fragment, frag_size, 1, fpi)\<close> stores 512 bytes into \<open>unsigned char
  fragment[256]\<close>: on the block stream \<open>09 01\<close> followed by 512 bytes, with 512 bytes
  remaining in the sector, the decoder does not copy the fragment but overruns the buffer.
\<close>

theorem rle_fragment_overflows_buffer:
  "rle_blocks 512 [] (9 # 1 # replicate 512 0xAA) = Inl (Undefined Fragment_overflow)
   \<and> read_sector_data 2 512 (9 # 1 # replicate 512 0xAA) = Inl (Undefined Fragment_overflow)"
  by (simp add: read_sector_data_def rle_blocks.simps [of 512])

text \<open>
  C10. In a literal run (block type 0) with bytes still to decode, a count byte of 0 makes
  \<open>fread(p, 0, 1, fpi)\<close> return 0, which the code reports as
  \<open>Error reading RLE block data\<close>: the block is not skipped.
\<close>

theorem rle_literal_zero_count_fails:
  "0 < remain \<Longrightarrow> rle_blocks remain out (0 # 0 # f) = Inl Error_reading_RLE_block_data"
  by (subst rle_blocks.simps) (simp add: fread1_def)

theorem rle_literal_zero_count_fails_witness:
  "(0::nat) < 128 \<and> rle_blocks 128 [] [0, 0, 1, 2, 3] = Inl Error_reading_RLE_block_data"
  using rle_literal_zero_count_fails [of 128 "[]" "[1, 2, 3]"]
  by simp

text \<open>
  C8. In the sector loop of \<open>main\<close>, a sector header with size code above 6 ends the run
  with \<open>Invalid sector size\<close>; a sector with a data block (size code at most 6,
  \<open>SEC_NODAT\<close> clear) whose method byte is above 2 ends it with
  \<open>Unknown compression method\<close>. In both cases the globals at exit are those on entry
  with only the file position advanced past the headers: \<open>fpo\<close> holds no byte of this
  sector. The enclosing loops pass the fault on unchanged.
\<close>

theorem process_sector_rejects:
  assumes "fpi (src g) = cyl # side # sec # ssize # flags # crc # f1"
  shows "(6 < unat ssize \<longrightarrow>
            process_sector mem g
              = Inl (Invalid_sector_size (unat ssize), g\<lparr>src := (src g)\<lparr>fpi := f1\<rparr>\<rparr>)
            \<and> sectors (Suc n) mem g
              = Inl (Invalid_sector_size (unat ssize), g\<lparr>src := (src g)\<lparr>fpi := f1\<rparr>\<rparr>))
       \<and> (unat ssize \<le> 6 \<and> flags AND SEC_NODAT = 0 \<and> f1 = o1 # o2 # m # f2 \<and> 2 < unat m \<longrightarrow>
            process_sector mem g
              = Inl (Unknown_compression_method (unat m), g\<lparr>src := (src g)\<lparr>fpi := f2\<rparr>\<rparr>)
            \<and> sectors (Suc n) mem g
              = Inl (Unknown_compression_method (unat m), g\<lparr>src := (src g)\<lparr>fpi := f2\<rparr>\<rparr>))"
  using assms
  by (auto simp: process_sector_def fread1_def Let_def read_sector_data_def)

theorem process_sector_rejects_witness:
  "fpi (src (globals_start [0, 0, 1, 7, 0, 0, 9])) = [0, 0, 1, 7, 0, 0, 9]
   \<and> 6 < unat (7 :: byte)
   \<and> process_sector (\<lambda>k. 0) (globals_start [0, 0, 1, 7, 0, 0, 9])
       = Inl (Invalid_sector_size 7, globals_start [9])
   \<and> fpi (src (globals_start [0, 0, 1, 2, 0, 0, 0, 0, 3, 9])) = [0, 0, 1, 2, 0, 0, 0, 0, 3, 9]
   \<and> unat (2 :: byte) \<le> 6 \<and> (0 :: byte) AND SEC_NODAT = 0 \<and> 2 < unat (3 :: byte)
   \<and> process_sector (\<lambda>k. 0) (globals_start [0, 0, 1, 2, 0, 0, 0, 0, 3, 9])
       = Inl (Unknown_compression_method 3, globals_start [9])
   \<and> fpo (globals_start [9]) = []"
  using process_sector_rejects
          [of "globals_start [0, 0, 1, 7, 0, 0, 9]" 0 0 1 7 0 0 "[9]" "\<lambda>k. 0" 0 0 0 0 "[]"]
        process_sector_rejects
          [of "globals_start [0, 0, 1, 2, 0, 0, 0, 0, 3, 9]" 0 0 1 2 0 0 "[0, 0, 3, 9]"
              "\<lambda>k. 0" 0 0 0 3 "[9]"]
  by (simp add: globals_start_def SEC_NODAT_def)

section \<open>main: results\<close>

text \<open>
  C1. \<open>main\<close> calls \<open>init_decompress\<close> for the signature \<open>0x4464\<close> and then reads every
  header and every sector payload with \<open>fread\<close> from the raw file, exactly as for
  \<open>0x4454\<close>; \<open>getbyte\<close> is never called. On \<open>compressed_container\<close> the run ends normally
  and the output is the IMD header followed by the 128 raw payload bytes (all zero);
  \<open>Advcomp\<close> is set, while \<open>GBcheck\<close>, \<open>GBr\<close> and the bit buffer are as \<open>init_decompress\<close>
  left them. Pulled through \<open>getbyte\<close>, the same payload would start with byte 116.
\<close>

theorem main_reads_compressed_container_raw:
  "(case main_td0 (\<lambda>k. 0) compressed_container of
      Inl e \<Rightarrow> False
    | Inr g \<Rightarrow> fpo g = imd_header @ replicate 128 0 \<and> Advcomp g = 0xFF \<and> GBcheck g = 0
         \<and> GBr g = 4036 \<and> Bits (src g) = 0 \<and> Bitbuff (src g) = 0 \<and> fpi (src g) = [])
   \<and> map_option fst (getbyte zeros_state) = Some 116"
proof -
  have "(case main_td0 (\<lambda>k. 0) compressed_container of
      Inl e \<Rightarrow> False
    | Inr g \<Rightarrow> fpo g = imd_header @ replicate 128 0 \<and> Advcomp g = 0xFF \<and> GBcheck g = 0
         \<and> GBr g = 4036 \<and> Bits (src g) = 0 \<and> Bitbuff (src g) = 0 \<and> fpi (src g) = [])"
    apply (simp add: main_td0_def compressed_container_def fread1_def globals_start_def Let_def
             init_decompress_def)
    apply (subst tracks.simps)
    apply (simp add: fread1_def process_sector_def Let_def SEC_NODAT_def read_sector_data_def
             read_raw_def)
    apply (subst tracks.simps)
    apply (simp add: fread1_def SBSIZE_def LASIZE_def)
    done
  with zeros_state_first_byte show ?thesis by simp
qed


section \<open>The rebuild of update: results\<close>

subsection \<open>The first loop: the leaves move to the front, halved\<close>

lemma nodes_update:
  "nodes (h\<lparr>freq := (freq h)[j := a], son := (son h)[j := b]\<rparr>) = (nodes h)[j := (a, b)]"
  by (simp add: nodes_def update_zip)

lemma rebuild_leaves_frame:
  "parent (rebuild_leaves i j h) = parent h
   \<and> length (freq (rebuild_leaves i j h)) = length (freq h)
   \<and> length (son (rebuild_leaves i j h)) = length (son h)"
proof (induction i j h rule: rebuild_leaves.induct)
  case (1 i j h)
  show ?case
  proof (cases "i < TSIZE")
    case True
    show ?thesis
    proof (cases "son h ! i \<ge> TSIZE")
      case leaf: True
      from "1.IH"(1)[OF True leaf] True leaf show ?thesis
        by (subst (1 2 3) rebuild_leaves.simps) simp
    next
      case node: False
      from "1.IH"(2)[OF True node] True node show ?thesis
        by (subst (1 2 3) rebuild_leaves.simps) simp
    qed
  next
    case False
    then show ?thesis by (subst (1 2 3) rebuild_leaves.simps) simp
  qed
qed

lemma rebuild_leaves_freq_top:
  "j \<le> i \<Longrightarrow> TSIZE \<le> k \<Longrightarrow> freq (rebuild_leaves i j h) ! k = freq h ! k"
proof (induction i j h rule: rebuild_leaves.induct)
  case (1 i j h)
  show ?case
  proof (cases "i < TSIZE")
    case True
    show ?thesis
    proof (cases "son h ! i \<ge> TSIZE")
      case leaf: True
      from "1.IH"(1)[OF True leaf] "1.prems" True leaf show ?thesis
        by (subst rebuild_leaves.simps) simp
    next
      case node: False
      from "1.IH"(2)[OF True node] "1.prems" True node show ?thesis
        by (subst rebuild_leaves.simps) simp
    qed
  next
    case False
    then show ?thesis by (subst rebuild_leaves.simps) simp
  qed
qed

text \<open>
  The first loop, entered at \<open>(i, j)\<close>, appends the halved leaves found from node \<open>i\<close> on
  to the first \<open>j\<close> nodes.
\<close>

lemma rebuild_leaves_nodes:
  assumes "j \<le> i" and "i \<le> TSIZE" and "length (nodes h) = TSIZE"
    and "\<forall>n \<in> set (filter is_leaf (drop i (nodes h))). fst n + 1 < 2 ^ 32"
  shows "take (j + length (filter is_leaf (drop i (nodes h)))) (nodes (rebuild_leaves i j h))
           = take j (nodes h) @ map halve (filter is_leaf (drop i (nodes h)))"
  using assms
proof (induction i j h rule: rebuild_leaves.induct)
  case (1 i j h)
  show ?case
  proof (cases "i < TSIZE")
    case True
    with "1.prems" have il: "i < length (nodes h)" by simp
    have ni: "nodes h ! i = (freq h ! i, son h ! i)"
      using il by (simp add: nodes_def)
    have dr: "drop i (nodes h) = (freq h ! i, son h ! i) # drop (i + 1) (nodes h)"
      using Cons_nth_drop_Suc[OF il] ni by simp
    show ?thesis
    proof (cases "son h ! i \<ge> TSIZE")
      case leaf: True
      let ?v = "(((freq h ! i + 1) mod 2 ^ 32) div 2, son h ! i)"
      let ?h1 = "h\<lparr>freq := (freq h)[j := ((freq h ! i + 1) mod 2 ^ 32) div 2],
                    son := (son h)[j := son h ! i]\<rparr>"
      have fl: "filter is_leaf (drop i (nodes h))
                  = (freq h ! i, son h ! i) # filter is_leaf (drop (i + 1) (nodes h))"
        using leaf by (simp add: dr is_leaf_def)
      with "1.prems"(4) have small: "freq h ! i + 1 < 2 ^ 32" by simp
      then have v: "?v = halve (freq h ! i, son h ! i)" by (simp add: halve_def)
      have n1: "nodes ?h1 = (nodes h)[j := ?v]" by (rule nodes_update)
      have unf: "rebuild_leaves i j h = rebuild_leaves (i + 1) (j + 1) ?h1"
        using True leaf by (subst rebuild_leaves.simps) simp
      have jl: "j < length (nodes h)" using "1.prems" il by simp
      have d1: "drop (i + 1) (nodes ?h1) = drop (i + 1) (nodes h)"
        unfolding n1 using "1.prems"(1) by simp
      have t1: "take (j + 1) (nodes ?h1) = take j (nodes h) @ [?v]"
        unfolding n1 using jl by (simp add: take_Suc_conv_app_nth)
      have "take (j + 1 + length (filter is_leaf (drop (i + 1) (nodes ?h1))))
              (nodes (rebuild_leaves (i + 1) (j + 1) ?h1))
            = take (j + 1) (nodes ?h1) @ map halve (filter is_leaf (drop (i + 1) (nodes ?h1)))"
      proof (rule "1.IH"(1)[OF True leaf])
        show "j + 1 \<le> i + 1" using "1.prems" by simp
        show "i + 1 \<le> TSIZE" using True by simp
        show "length (nodes ?h1) = TSIZE" unfolding n1 using "1.prems"(3) by simp
        show "\<forall>n\<in>set (filter is_leaf (drop (i + 1) (nodes ?h1))). fst n + 1 < 2 ^ 32"
          using "1.prems"(4) by (simp only: d1 fl) simp
      qed
      then have "take (j + 1 + length (filter is_leaf (drop (i + 1) (nodes h))))
              (nodes (rebuild_leaves i j h))
            = (take j (nodes h) @ [?v]) @ map halve (filter is_leaf (drop (i + 1) (nodes h)))"
        by (simp only: d1 t1 unf)
      then show ?thesis
        by (simp only: fl v) simp
    next
      case node: False
      have unf: "rebuild_leaves i j h = rebuild_leaves (i + 1) j h"
        using True node by (subst rebuild_leaves.simps) simp
      have fl: "filter is_leaf (drop i (nodes h)) = filter is_leaf (drop (i + 1) (nodes h))"
        using node by (simp add: dr is_leaf_def)
      have "take (j + length (filter is_leaf (drop (i + 1) (nodes h))))
              (nodes (rebuild_leaves (i + 1) j h))
            = take j (nodes h) @ map halve (filter is_leaf (drop (i + 1) (nodes h)))"
      proof (rule "1.IH"(2)[OF True node])
        show "j \<le> i + 1" using "1.prems" by simp
        show "i + 1 \<le> TSIZE" using True by simp
        show "length (nodes h) = TSIZE" using "1.prems" by simp
        show "\<forall>n\<in>set (filter is_leaf (drop (i + 1) (nodes h))). fst n + 1 < 2 ^ 32"
          using "1.prems"(4) by (simp only: fl)
      qed
      then show ?thesis
        by (simp only: unf fl)
    qed
  next
    case False
    with "1.prems" have "i = TSIZE" by simp
    then show ?thesis
      using "1.prems" by (subst rebuild_leaves.simps) simp
  qed
qed

subsection \<open>The second loop: pairs inserted in order of frequency\<close>

lemma find_down_Some:
  "find_down fr f m = Some k \<Longrightarrow>
   k \<le> m \<and> k < length fr \<and> fr ! k \<le> f \<and> (\<forall>q. k < q \<and> q \<le> m \<longrightarrow> f < fr ! q)"
proof (induction m)
  case 0
  then show ?case by (auto split: if_splits)
next
  case (Suc m)
  show ?case
  proof (cases "Suc m < length fr \<and> f < fr ! Suc m")
    case True
    with Suc.prems have "find_down fr f m = Some k" by simp
    from Suc.IH[OF this] True show ?thesis
      by (auto simp: le_Suc_eq)
  next
    case False
    with Suc.prems show ?thesis by (auto split: if_splits)
  qed
qed

lemma find_down_exists:
  "m < length fr \<Longrightarrow> q \<le> m \<Longrightarrow> fr ! q \<le> f \<Longrightarrow> \<exists>k. find_down fr f m = Some k \<and> q \<le> k"
proof (induction m)
  case 0
  then show ?case by auto
next
  case (Suc m)
  show ?case
  proof (cases "f < fr ! Suc m")
    case True
    with Suc.prems have "q \<le> m" by (cases "q = Suc m") auto
    with Suc.IH Suc.prems True show ?thesis by auto
  next
    case False
    with Suc.prems show ?thesis by auto
  qed
qed

lemma array_insert_alt:
  "array_insert a k j v = (take k a @ v # drop k (take j a)) @ drop (j + 1) a"
  by (simp add: array_insert_def drop_take)

lemma array_insert_prefix_length:
  "k \<le> j \<Longrightarrow> j < length a \<Longrightarrow> length (take k a @ v # drop k (take j a)) = j + 1"
  by simp

lemma array_insert_length:
  "k \<le> j \<Longrightarrow> j < length a \<Longrightarrow> length (array_insert a k j v) = length a"
  by (simp add: array_insert_def)

lemma array_insert_update:
  assumes "k \<le> j"
  shows "array_insert (a[j := y]) k j v = array_insert a k j v"
proof -
  have "take k (a[j := y]) = take k a" using assms by (rule take_update_cancel)
  moreover have "take j (a[j := y]) = take j a" by (rule take_update_cancel) simp
  moreover have "drop (j + 1) (a[j := y]) = drop (j + 1) a" by (rule drop_update_cancel) simp
  ultimately show ?thesis by (simp only: array_insert_alt)
qed

lemma take_prefix: "length xs = n \<Longrightarrow> take n (xs @ ys) = xs"
  by simp

lemma nth_suffix: "length xs = n \<Longrightarrow> n \<le> q \<Longrightarrow> (xs @ ys) ! q = ys ! (q - n)"
  by (simp add: nth_append)

lemma array_insert_take:
  assumes "k \<le> j" and "j < length a"
  shows "take (j + 1) (array_insert a k j v) = take k (take j a) @ v # drop k (take j a)"
proof -
  have "take (j + 1) (array_insert a k j v) = take k a @ v # drop k (take j a)"
    unfolding array_insert_alt
    by (rule take_prefix) (rule array_insert_prefix_length[OF assms])
  moreover have "take k (take j a) = take k a" using assms(1) by (simp add: min_def)
  ultimately show ?thesis by simp
qed

lemma array_insert_nth_above:
  assumes "k \<le> j" and "j < q" and "q < length a"
  shows "array_insert a k j v ! q = a ! q"
proof -
  have l: "length (take k a @ v # drop k (take j a)) = j + 1"
    using assms by (intro array_insert_prefix_length) simp_all
  have "array_insert a k j v ! q = drop (j + 1) a ! (q - (j + 1))"
    unfolding array_insert_alt using assms(2) by (intro nth_suffix[OF l]) simp
  also have "\<dots> = a ! q" using assms by simp
  finally show ?thesis .
qed

lemma array_insert_zip:
  assumes "k \<le> j" and "j < length xs" and "j < length ys"
  shows "zip (array_insert xs k j a) (array_insert ys k j b) = array_insert (zip xs ys) k j (a, b)"
proof -
  have "length (take k xs) = length (take k ys)" using assms by simp
  moreover have "length (take (j - k) (drop k xs)) = length (take (j - k) (drop k ys))"
    using assms by simp
  ultimately show ?thesis
    by (simp add: array_insert_def zip_append take_zip drop_zip)
qed

lemma nth_prefix: "length xs = n \<Longrightarrow> q < n \<Longrightarrow> (xs @ ys) ! q = xs ! q"
  by (simp add: nth_append)

lemma ins_nth:
  assumes "k \<le> length ns"
  shows "q < k \<Longrightarrow> (take k ns @ x # drop k ns) ! q = ns ! q"
    and "(take k ns @ x # drop k ns) ! k = x"
    and "k < q \<Longrightarrow> q \<le> length ns \<Longrightarrow> (take k ns @ x # drop k ns) ! q = ns ! (q - 1)"
proof -
  have l: "length (take k ns) = k" using assms by simp
  show "(take k ns @ x # drop k ns) ! q = ns ! q" if "q < k"
  proof -
    have "(take k ns @ x # drop k ns) ! q = take k ns ! q"
      using l that by (rule nth_prefix)
    then show ?thesis using that by simp
  qed
  show "(take k ns @ x # drop k ns) ! k = x"
  proof -
    have "(take k ns @ x # drop k ns) ! k = (x # drop k ns) ! (k - k)"
      using l by (rule nth_suffix) simp
    then show ?thesis by simp
  qed
  show "(take k ns @ x # drop k ns) ! q = ns ! (q - 1)" if a: "k < q" "q \<le> length ns"
  proof -
    define d where "d = q - k - 1"
    have d: "q = k + Suc d" using a(1) by (simp add: d_def)
    have "(take k ns @ x # drop k ns) ! q = (x # drop k ns) ! (q - k)"
      using l by (rule nth_suffix) (use a in simp)
    also have "q - k = Suc d" using d by simp
    also have "(x # drop k ns) ! Suc d = drop k ns ! d" by simp
    also have "\<dots> = ns ! (k + d)" using a d by (intro nth_drop) simp
    also have "k + d = q - 1" using d by simp
    finally show ?thesis .
  qed
qed

lemma ins_sorted:
  assumes s: "sorted fs" and k: "k \<le> length fs"
    and lo: "\<forall>q<k. fs ! q \<le> f" and hi: "\<forall>q. k \<le> q \<and> q < length fs \<longrightarrow> f \<le> fs ! q"
  shows "sorted (take k fs @ f # drop k fs)"
proof -
  have a: "\<forall>x \<in> set (take k fs). x \<le> f"
  proof
    fix x assume "x \<in> set (take k fs)"
    then obtain q where "q < length (take k fs)" "take k fs ! q = x"
      by (auto simp: in_set_conv_nth)
    with lo k show "x \<le> f" by auto
  qed
  have b: "\<forall>y \<in> set (drop k fs). f \<le> y"
  proof
    fix y assume "y \<in> set (drop k fs)"
    then obtain q where "q < length (drop k fs)" "drop k fs ! q = y"
      by (auto simp: in_set_conv_nth)
    with hi k show "f \<le> y" by auto
  qed
  have "sorted (drop k fs)" using s by (rule sorted_wrt_drop)
  have "sorted (take k fs)" using s by (rule sorted_wrt_take)
  moreover have "\<forall>x \<in> set (take k fs). \<forall>y \<in> set (f # drop k fs). x \<le> y"
  proof (intro ballI)
    fix x y assume x: "x \<in> set (take k fs)" and y: "y \<in> set (f # drop k fs)"
    from a x have xf: "x \<le> f" by blast
    show "x \<le> y"
    proof (cases "y = f")
      case True
      with xf show ?thesis by simp
    next
      case False
      with y have "y \<in> set (drop k fs)" by simp
      with b have "f \<le> y" by blast
      with xf show ?thesis by (rule order_trans)
    qed
  qed
  moreover have "sorted (f # drop k fs)"
    using b \<open>sorted (drop k fs)\<close> by simp
  ultimately show ?thesis
    by (simp only: sorted_append)
qed

lemma drop_split: "n \<le> k \<Longrightarrow> k \<le> length xs \<Longrightarrow> drop n xs = drop n (take k xs) @ drop k xs"
proof -
  assume a: "n \<le> k" "k \<le> length xs"
  have "drop n xs = drop n (take k xs @ drop k xs)" by simp
  also have "\<dots> = drop n (take k xs) @ drop k xs" using a by (simp only: drop_append) simp
  finally show ?thesis .
qed

lemma ins_sum:
  fixes ns :: "(nat \<times> nat) list"
  assumes "i + 2 \<le> k" and "k \<le> length ns" 
  shows "sum_list (map fst (drop (i + 2) (take k ns @ (fst (ns ! i) + fst (ns ! (i + 1)), s) # drop k ns)))
           = sum_list (map fst (drop i ns))"
proof -
  have l: "length (take k ns) = k" using assms by simp
  have il: "i < length ns" "i + 1 < length ns" using assms by simp_all
  have d1: "drop i ns = ns ! i # ns ! (i + 1) # drop (i + 2) ns"
    using Cons_nth_drop_Suc[OF il(1)] Cons_nth_drop_Suc[OF il(2)] by simp
  have d2: "drop (i + 2) ns = drop (i + 2) (take k ns) @ drop k ns"
    using assms by (rule drop_split)
  have e: "drop (i + 2) (take k ns @ (fst (ns ! i) + fst (ns ! (i + 1)), s) # drop k ns)
          = drop (i + 2) (take k ns) @ (fst (ns ! i) + fst (ns ! (i + 1)), s) # drop k ns"
    using assms(1) l by simp
  have "sum_list (map fst (drop (i + 2)
                (take k ns @ (fst (ns ! i) + fst (ns ! (i + 1)), s) # drop k ns)))
      = sum_list (map fst (drop (i + 2) (take k ns)))
        + (fst (ns ! i) + fst (ns ! (i + 1))) + sum_list (map fst (drop k ns))"
    by (subst e) simp
  moreover have "sum_list (map fst (drop i ns))
      = fst (ns ! i) + fst (ns ! (i + 1))
        + (sum_list (map fst (drop (i + 2) (take k ns))) + sum_list (map fst (drop k ns)))"
    by (subst d1, subst d2) simp
  ultimately show ?thesis by simp
qed

lemma rebuild_invD:
  assumes "rebuild_inv L T i j ns"
  shows "length ns = j" and "N_CHAR \<le> j" and "j \<le> TSIZE" and "i = 2 * (j - N_CHAR)"
    and "sorted (map fst ns)" and "\<forall>n \<in> set ns. 1 \<le> fst n" and "filter is_leaf ns = L"
    and "sum_list (map fst (drop i ns)) = T"
    and "set (map snd (filter (\<lambda>n. \<not> is_leaf n) ns)) = (\<lambda>m. 2 * m) ` {0..<j - N_CHAR}"
    and "\<forall>p<j. \<not> is_leaf (ns ! p) \<longrightarrow>
            snd (ns ! p) + 1 < p
            \<and> fst (ns ! p) = fst (ns ! snd (ns ! p)) + fst (ns ! (snd (ns ! p) + 1))"
  using assms unfolding rebuild_inv_def by blast+

lemma inv_sons:
  assumes inv: "rebuild_inv L T i j ns" and p: "p < j" and nl: "\<not> is_leaf (ns ! p)"
  shows "snd (ns ! p) + 1 < i"
proof -
  have len: "length ns = j" by (rule rebuild_invD(1)[OF inv])
  have i: "i = 2 * (j - N_CHAR)" by (rule rebuild_invD(4)[OF inv])
  have m: "set (map snd (filter (\<lambda>n. \<not> is_leaf n) ns)) = (\<lambda>m. 2 * m) ` {0..<j - N_CHAR}"
    by (rule rebuild_invD(9)[OF inv])
  have "ns ! p \<in> set (filter (\<lambda>n. \<not> is_leaf n) ns)" using p nl len by simp
  then have "snd (ns ! p) \<in> set (map snd (filter (\<lambda>n. \<not> is_leaf n) ns))"
    by (simp only: set_map) (rule imageI)
  also note m
  finally obtain m where "m < j - N_CHAR" "snd (ns ! p) = 2 * m" by auto
  then show ?thesis using i by simp
qed

lemma inv_step:
  fixes ns :: "(nat \<times> nat) list"
  assumes inv: "rebuild_inv L T i j ns" and j: "j < TSIZE"
    and f: "f = fst (ns ! i) + fst (ns ! (i + 1))"
    and k: "i + 2 \<le> k" "k \<le> j"
    and lo: "\<forall>q<k. fst (ns ! q) \<le> f"
    and hi: "\<forall>q. k \<le> q \<and> q < j \<longrightarrow> f \<le> fst (ns ! q)"
  shows "rebuild_inv L T (i + 2) (j + 1) (take k ns @ (f, i) # drop k ns)"
proof -
  let ?ns' = "take k ns @ (f, i) # drop k ns"
  have len: "length ns = j" by (rule rebuild_invD(1)[OF inv])
  have jN: "N_CHAR \<le> j" by (rule rebuild_invD(2)[OF inv])
  have i: "i = 2 * (j - N_CHAR)" by (rule rebuild_invD(4)[OF inv])
  have srt: "sorted (map fst ns)" by (rule rebuild_invD(5)[OF inv])
  have pos: "\<forall>n \<in> set ns. 1 \<le> fst n" by (rule rebuild_invD(6)[OF inv])
  have fl: "filter is_leaf ns = L" by (rule rebuild_invD(7)[OF inv])
  have sm: "sum_list (map fst (drop i ns)) = T" by (rule rebuild_invD(8)[OF inv])
  have ms: "set (map snd (filter (\<lambda>n. \<not> is_leaf n) ns)) = (\<lambda>m. 2 * m) ` {0..<j - N_CHAR}"
    by (rule rebuild_invD(9)[OF inv])
  have nd: "\<forall>p<j. \<not> is_leaf (ns ! p) \<longrightarrow>
            snd (ns ! p) + 1 < p
            \<and> fst (ns ! p) = fst (ns ! snd (ns ! p)) + fst (ns ! (snd (ns ! p) + 1))"
    by (rule rebuild_invD(10)[OF inv])
  have kl: "k \<le> length ns" using k len by simp
  have iT: "i < TSIZE" using i j by (simp add: consts_defs)
  have nleaf: "\<not> is_leaf (f, i)" using iT by (simp add: is_leaf_def)
  have split: "take k ns @ drop k ns = ns" by simp
  have c1: "length ?ns' = j + 1" using kl len by simp
  have c2: "N_CHAR \<le> j + 1 \<and> j + 1 \<le> TSIZE \<and> i + 2 = 2 * (j + 1 - N_CHAR)"
    using jN j i by simp
  have c3: "sorted (map fst ?ns')"
  proof -
    have "sorted (take k (map fst ns) @ f # drop k (map fst ns))"
    proof (rule ins_sorted[OF srt])
      show "k \<le> length (map fst ns)" using kl by simp
      show "\<forall>q<k. map fst ns ! q \<le> f" using lo kl by simp
      show "\<forall>q. k \<le> q \<and> q < length (map fst ns) \<longrightarrow> f \<le> map fst ns ! q"
        using hi len by simp
    qed
    then show ?thesis by (simp add: take_map drop_map)
  qed
  have i1: "i < length ns" "i + 1 < length ns" using k len by simp_all
  have c4: "\<forall>n \<in> set ?ns'. 1 \<le> fst n"
  proof
    fix n assume "n \<in> set ?ns'"
    then have "n = (f, i) \<or> n \<in> set (take k ns) \<or> n \<in> set (drop k ns)" by auto
    moreover have "1 \<le> fst (ns ! i)" using pos i1 by simp
    then have "1 \<le> f" using f by simp
    ultimately show "1 \<le> fst n" using pos by (auto dest: in_set_takeD in_set_dropD)
  qed
  have c5: "filter is_leaf ?ns' = L"
  proof -
    have "filter is_leaf ?ns' = filter is_leaf (take k ns @ drop k ns)"
      using nleaf by (simp only: filter_append filter.simps) simp
    then show ?thesis using fl by (simp only: split)
  qed
  have c6: "sum_list (map fst (drop (i + 2) ?ns')) = T"
    unfolding f using ins_sum[OF k(1) kl] sm by simp
  have c7: "set (map snd (filter (\<lambda>n. \<not> is_leaf n) ?ns')) = (\<lambda>m. 2 * m) ` {0..<j + 1 - N_CHAR}"
  proof -
    have "set (map snd (filter (\<lambda>n. \<not> is_leaf n) ?ns'))
        = insert i (set (map snd (filter (\<lambda>n. \<not> is_leaf n) (take k ns @ drop k ns))))"
      using nleaf by (simp only: filter_append filter.simps) auto
    also have "\<dots> = insert i ((\<lambda>m. 2 * m) ` {0..<j - N_CHAR})"
      using ms by (simp only: split)
    also have "\<dots> = (\<lambda>m. 2 * m) ` (insert (j - N_CHAR) {0..<j - N_CHAR})"
      using i by simp
    also have "insert (j - N_CHAR) {0..<j - N_CHAR} = {0..<Suc (j - N_CHAR)}" by auto
    also have "Suc (j - N_CHAR) = j + 1 - N_CHAR" using jN by simp
    finally show ?thesis .
  qed
  have c8: "\<forall>p<j + 1. \<not> is_leaf (?ns' ! p) \<longrightarrow>
            snd (?ns' ! p) + 1 < p
            \<and> fst (?ns' ! p) = fst (?ns' ! snd (?ns' ! p)) + fst (?ns' ! (snd (?ns' ! p) + 1))"
  proof (intro allI impI)
    fix p assume p: "p < j + 1" and nl: "\<not> is_leaf (?ns' ! p)"
    consider "p < k" | "p = k" | "k < p" by linarith
    then show "snd (?ns' ! p) + 1 < p
            \<and> fst (?ns' ! p) = fst (?ns' ! snd (?ns' ! p)) + fst (?ns' ! (snd (?ns' ! p) + 1))"
    proof cases
      case 1
      have e: "?ns' ! p = ns ! p" using 1 by (rule ins_nth(1)[OF kl])
      have pj: "p < j" using 1 k by simp
      have nl': "\<not> is_leaf (ns ! p)" using nl e by simp
      from nd pj nl' have a: "snd (ns ! p) + 1 < p"
        and b: "fst (ns ! p) = fst (ns ! snd (ns ! p)) + fst (ns ! (snd (ns ! p) + 1))"
        by blast+
      have e1: "?ns' ! snd (ns ! p) = ns ! snd (ns ! p)"
        by (rule ins_nth(1)[OF kl]) (use a 1 in simp)
      have e2: "?ns' ! (snd (ns ! p) + 1) = ns ! (snd (ns ! p) + 1)"
        by (rule ins_nth(1)[OF kl]) (use a 1 in simp)
      show ?thesis unfolding e e1 e2 using a b by simp
    next
      case 2
      have e: "?ns' ! p = (f, i)" unfolding 2 by (rule ins_nth(2)[OF kl])
      have e1: "?ns' ! i = ns ! i" by (rule ins_nth(1)[OF kl]) (use k in simp)
      have e2: "?ns' ! (i + 1) = ns ! (i + 1)" by (rule ins_nth(1)[OF kl]) (use k in simp)
      show ?thesis unfolding e using e1 e2 f k 2 by simp
    next
      case 3
      have e: "?ns' ! p = ns ! (p - 1)" by (rule ins_nth(3)[OF kl 3]) (use p len in simp)
      have pj: "p - 1 < j" using 3 p by simp
      have nl': "\<not> is_leaf (ns ! (p - 1))" using nl e by simp
      from nd pj nl' have a: "snd (ns ! (p - 1)) + 1 < p - 1"
        and b: "fst (ns ! (p - 1)) = fst (ns ! snd (ns ! (p - 1))) + fst (ns ! (snd (ns ! (p - 1)) + 1))"
        by blast+
      have s: "snd (ns ! (p - 1)) + 1 < i" using inv pj nl' by (rule inv_sons)
      have e1: "?ns' ! snd (ns ! (p - 1)) = ns ! snd (ns ! (p - 1))"
        by (rule ins_nth(1)[OF kl]) (use s k in simp)
      have e2: "?ns' ! (snd (ns ! (p - 1)) + 1) = ns ! (snd (ns ! (p - 1)) + 1)"
        by (rule ins_nth(1)[OF kl]) (use s k in simp)
      show ?thesis unfolding e e1 e2 using a b by simp
    qed
  qed
  show ?thesis
    unfolding rebuild_inv_def
    using c1 c2 c3 c4 c5 c6 c7 c8 by (intro conjI) (simp_all only:)
qed

lemma pair_le_sum_drop:
  fixes ns :: "(nat \<times> nat) list"
  assumes "i + 1 < length ns"
  shows "fst (ns ! i) + fst (ns ! (i + 1)) \<le> sum_list (map fst (drop i ns))"
proof -
  have il: "i < length ns" "i + 1 < length ns" using assms by simp_all
  have d1: "drop i ns = ns ! i # ns ! (i + 1) # drop (i + 2) ns"
    using Cons_nth_drop_Suc[OF il(1)] Cons_nth_drop_Suc[OF il(2)] by simp
  show ?thesis by (subst d1) simp
qed

lemma nodes_length': "length (freq h) = TSIZE + 1 \<Longrightarrow> length (son h) = TSIZE \<Longrightarrow> length (nodes h) = TSIZE"
  by (simp add: nodes_def)

lemma nodes_fst: "length (freq h) = TSIZE + 1 \<Longrightarrow> length (son h) = TSIZE \<Longrightarrow> q < TSIZE \<Longrightarrow> fst (nodes h ! q) = freq h ! q"
  by (simp add: nodes_def)

lemma rebuild_nodes_step:
  assumes lf: "length (freq h) = TSIZE + 1" and ls: "length (son h) = TSIZE"
    and inv: "rebuild_inv L T i j (take j (nodes h))" and T: "T < 2 ^ 32" and j: "j < TSIZE"
  shows "\<exists>k0. find_down ((freq h)[j := (freq h ! i + freq h ! (i + 1)) mod 2 ^ 32])
                 ((freq h ! i + freq h ! (i + 1)) mod 2 ^ 32) (j - 1) = Some k0
           \<and> rebuild_inv L T (i + 2) (j + 1)
               (take (j + 1) (nodes (h\<lparr>freq := array_insert ((freq h)[j := (freq h ! i + freq h ! (i + 1)) mod 2 ^ 32]) (k0 + 1) j ((freq h ! i + freq h ! (i + 1)) mod 2 ^ 32),
                           son := array_insert (son h) (k0 + 1) j i\<rparr>)))
           \<and> k0 + 1 \<le> j"
proof -
  let ?ns = "take j (nodes h)"
  define f where "f = (freq h ! i + freq h ! (i + 1)) mod 2 ^ 32"
  define fr where "fr = (freq h)[j := f]"
  have ln: "length (nodes h) = TSIZE" using lf ls by (rule nodes_length')
  have len: "length ?ns = j" using ln j by simp
  have jN: "N_CHAR \<le> j" by (rule rebuild_invD(2)[OF inv])
  have i: "i = 2 * (j - N_CHAR)" by (rule rebuild_invD(4)[OF inv])
  have srt: "sorted (map fst ?ns)" by (rule rebuild_invD(5)[OF inv])
  have sm: "sum_list (map fst (drop i ?ns)) = T" by (rule rebuild_invD(8)[OF inv])
  have i2: "i + 2 \<le> j" using i j jN by (simp add: consts_defs)
  have F: "fst (?ns ! q) = freq h ! q" if "q < j" for q
    using that j nodes_fst[OF lf ls, of q] by simp
  have "fst (?ns ! i) + fst (?ns ! (i + 1)) \<le> T"
    using pair_le_sum_drop[of i ?ns] len i2 sm by simp
  then have "freq h ! i + freq h ! (i + 1) \<le> T" using F[of i] F[of "i + 1"] i2 by simp
  then have f: "f = freq h ! i + freq h ! (i + 1)" using T by (simp add: f_def)
  have f': "f = fst (?ns ! i) + fst (?ns ! (i + 1))" using f F[of i] F[of "i + 1"] i2 by simp
  have frq: "fr ! q = freq h ! q" if "q < j" for q using that by (simp add: fr_def)
  have j1: "j - 1 < length fr" using j lf by (simp add: fr_def)
  have "fr ! (i + 1) \<le> f" using frq[of "i + 1"] i2 f by simp
  with j1 have "\<exists>k. find_down fr f (j - 1) = Some k \<and> i + 1 \<le> k"
    by (intro find_down_exists) (use i2 in simp_all)
  then obtain k0 where fd: "find_down fr f (j - 1) = Some k0" and k0: "i + 1 \<le> k0" by blast
  from find_down_Some[OF fd] have k0j: "k0 \<le> j - 1" and k0f: "fr ! k0 \<le> f"
    and above: "\<forall>q. k0 < q \<and> q \<le> j - 1 \<longrightarrow> f < fr ! q" by blast+
  have kj: "k0 + 1 \<le> j" using k0j i2 by simp
  have lo: "\<forall>q<k0 + 1. fst (?ns ! q) \<le> f"
  proof (intro allI impI)
    fix q assume q: "q < k0 + 1"
    have "map fst ?ns ! q \<le> map fst ?ns ! k0"
      using srt q kj len by (intro sorted_nth_mono) simp_all
    then have "fst (?ns ! q) \<le> fst (?ns ! k0)" using q kj len by simp
    also have "\<dots> = fr ! k0" using F[of k0] frq[of k0] kj by simp
    finally show "fst (?ns ! q) \<le> f" using k0f by simp
  qed
  have hi: "\<forall>q. k0 + 1 \<le> q \<and> q < j \<longrightarrow> f \<le> fst (?ns ! q)"
  proof (intro allI impI)
    fix q assume q: "k0 + 1 \<le> q \<and> q < j"
    then have "k0 < q \<and> q \<le> j - 1" by arith
    with above have "f < fr ! q" by blast
    then show "f \<le> fst (?ns ! q)" using F[of q] frq[of q] q by simp
  qed
  have st: "rebuild_inv L T (i + 2) (j + 1) (take (k0 + 1) ?ns @ (f, i) # drop (k0 + 1) ?ns)"
    using inv j f' _ kj lo hi by (rule inv_step) (use k0 in simp)
  have ai: "array_insert fr (k0 + 1) j f = array_insert (freq h) (k0 + 1) j f"
    unfolding fr_def using kj by (rule array_insert_update)
  have "nodes (h\<lparr>freq := array_insert fr (k0 + 1) j f, son := array_insert (son h) (k0 + 1) j i\<rparr>)
        = array_insert (nodes h) (k0 + 1) j (f, i)"
    unfolding ai nodes_def using kj j lf ls by (simp add: array_insert_zip)
  moreover have "take (j + 1) (array_insert (nodes h) (k0 + 1) j (f, i))
        = take (k0 + 1) ?ns @ (f, i) # drop (k0 + 1) ?ns"
    using kj by (rule array_insert_take) (use ln j in simp)
  ultimately have "rebuild_inv L T (i + 2) (j + 1)
      (take (j + 1) (nodes (h\<lparr>freq := array_insert fr (k0 + 1) j f, son := array_insert (son h) (k0 + 1) j i\<rparr>)))"
    using st by simp
  with fd kj show ?thesis unfolding fr_def f_def by blast
qed

text \<open>
  The second loop runs to its end, never reading below \<open>freq[0]\<close>, and establishes its
  invariant for all \<open>TSIZE\<close> nodes.
\<close>

lemma rebuild_nodes_correct:
  assumes "length (freq h) = TSIZE + 1" and "length (son h) = TSIZE"
    and "rebuild_inv L T i j (take j (nodes h))" and "T < 2 ^ 32"
  shows "\<exists>h'. rebuild_nodes i j h = Some h'
           \<and> rebuild_inv L T (2 * (TSIZE - N_CHAR)) TSIZE (nodes h')
           \<and> length (freq h') = TSIZE + 1 \<and> length (son h') = TSIZE
           \<and> parent h' = parent h \<and> freq h' ! TSIZE = freq h ! TSIZE"
  using assms
proof (induction i j h rule: rebuild_nodes.induct)
  case (1 i j h)
  show ?case
  proof (cases "j < TSIZE")
    case True
    define f where "f = (freq h ! i + freq h ! (i + 1)) mod 2 ^ 32"
    define fr where "fr = (freq h)[j := f]"
    from rebuild_nodes_step[OF "1.prems" True]
    obtain k0 where fd: "find_down fr f (j - 1) = Some k0"
      and inv': "rebuild_inv L T (i + 2) (j + 1)
               (take (j + 1) (nodes (h\<lparr>freq := array_insert fr (k0 + 1) j f,
                           son := array_insert (son h) (k0 + 1) j i\<rparr>)))"
      and kj: "k0 + 1 \<le> j"
      unfolding f_def fr_def by blast
    let ?h = "h\<lparr>freq := array_insert fr (k0 + 1) j f, son := array_insert (son h) (k0 + 1) j i\<rparr>"
    have lf: "length (freq ?h) = TSIZE + 1"
      using kj True "1.prems"(1) by (simp add: array_insert_length fr_def)
    have ls: "length (son ?h) = TSIZE"
      using kj True "1.prems"(2) by (simp add: array_insert_length)
    have top: "freq ?h ! TSIZE = freq h ! TSIZE"
    proof -
      have "array_insert fr (k0 + 1) j f ! TSIZE = fr ! TSIZE"
        using kj True by (rule array_insert_nth_above) (simp add: fr_def "1.prems"(1))
      then show ?thesis using True by (simp add: fr_def)
    qed
    have "\<exists>h'. rebuild_nodes (i + 2) (j + 1) ?h = Some h'
           \<and> rebuild_inv L T (2 * (TSIZE - N_CHAR)) TSIZE (nodes h')
           \<and> length (freq h') = TSIZE + 1 \<and> length (son h') = TSIZE
           \<and> parent h' = parent ?h \<and> freq h' ! TSIZE = freq ?h ! TSIZE"
      using True f_def fr_def fd refl lf ls inv' "1.prems"(4) by (rule "1.IH")
    moreover have "rebuild_nodes i j h = rebuild_nodes (i + 2) (j + 1) ?h"
      by (subst rebuild_nodes.simps)
         (simp only: True if_True Let_def fd[unfolded fr_def f_def] option.case fr_def f_def)
    ultimately show ?thesis using top by simp
  next
    case False
    have jT: "j = TSIZE" using False rebuild_invD(3)[OF "1.prems"(3)] by simp
    have ln: "length (nodes h) = TSIZE" using "1.prems"(1,2) by (rule nodes_length')
    have i: "i = 2 * (TSIZE - N_CHAR)" using rebuild_invD(4)[OF "1.prems"(3)] jT by simp
    have "rebuild_nodes i j h = Some h" by (subst rebuild_nodes.simps) (simp add: False)
    moreover have "rebuild_inv L T (2 * (TSIZE - N_CHAR)) TSIZE (nodes h)"
      using "1.prems"(3) ln unfolding jT i by simp
    ultimately show ?thesis using "1.prems"(1,2) by simp
  qed
qed

subsection \<open>The third loop: the parent links\<close>

text \<open>
  The third loop stays inside \<open>parent\<close> and sets the entries of every node from \<open>i\<close> on,
  when no two nodes share an entry.
\<close>

lemma rebuild_parents_correct:
  assumes "\<forall>p x. p < TSIZE \<and> tgt (son h) p x \<longrightarrow> x < length (parent h)"
    and "\<forall>p q x. p < TSIZE \<and> q < TSIZE \<and> tgt (son h) p x \<and> tgt (son h) q x \<longrightarrow> p = q"
  shows "\<exists>h'. rebuild_parents i h = Some h' \<and> freq h' = freq h \<and> son h' = son h
           \<and> length (parent h') = length (parent h)
           \<and> (\<forall>p x. i \<le> p \<and> p < TSIZE \<and> tgt (son h) p x \<longrightarrow> parent h' ! x = p)
           \<and> (\<forall>x. (\<forall>p. i \<le> p \<and> p < TSIZE \<longrightarrow> \<not> tgt (son h) p x) \<longrightarrow> parent h' ! x = parent h ! x)"
  using assms
proof (induction i h rule: rebuild_parents.induct)
  case (1 i h)
  note bound = "1.prems"(1) and disj = "1.prems"(2)
  show ?case
  proof (cases "i < TSIZE")
    case False
    have "rebuild_parents i h = Some h" by (subst rebuild_parents.simps) (simp add: False)
    then show ?thesis using False by simp
  next
    case True
    define k where "k = son h ! i"
    define P where "P = (if k \<ge> TSIZE then (parent h)[k := i] else (parent h)[k + 1 := i, k := i])"
    have tk: "tgt (son h) i k" by (simp add: tgt_def k_def)
    have kl: "k < length (parent h)" using bound True tk by blast
    have tk1: "k < TSIZE \<Longrightarrow> tgt (son h) i (k + 1)" by (simp add: tgt_def k_def)
    have kl1: "k < TSIZE \<Longrightarrow> k + 1 < length (parent h)" using bound True tk1 by blast
    have step: "rebuild_parents i h = rebuild_parents (i + 1) (h\<lparr>parent := P\<rparr>)"
      by (subst rebuild_parents.simps)
         (use kl kl1 in \<open>simp add: True Let_def k_def[symmetric] P_def wr_def\<close>)
    have Pt: "P ! x = i" if "tgt (son h) i x" for x
      using that kl kl1 by (auto simp: P_def tgt_def k_def[symmetric] nth_list_update)
    have Pn: "P ! x = parent h ! x" if "\<not> tgt (son h) i x" for x
      using that by (auto simp: P_def tgt_def k_def[symmetric] nth_list_update)
    have lP: "length P = length (parent h)" by (simp add: P_def)
    let ?h = "h\<lparr>parent := P\<rparr>"
    have b': "\<forall>p x. p < TSIZE \<and> tgt (son ?h) p x \<longrightarrow> x < length (parent ?h)"
      using bound lP by simp
    have d': "\<forall>p q x. p < TSIZE \<and> q < TSIZE \<and> tgt (son ?h) p x \<and> tgt (son ?h) q x \<longrightarrow> p = q"
      using disj by simp
    have "\<exists>h'. rebuild_parents (i + 1) ?h = Some h' \<and> freq h' = freq ?h \<and> son h' = son ?h
           \<and> length (parent h') = length (parent ?h)
           \<and> (\<forall>p x. i + 1 \<le> p \<and> p < TSIZE \<and> tgt (son ?h) p x \<longrightarrow> parent h' ! x = p)
           \<and> (\<forall>x. (\<forall>p. i + 1 \<le> p \<and> p < TSIZE \<longrightarrow> \<not> tgt (son ?h) p x) \<longrightarrow> parent h' ! x = parent ?h ! x)"
    proof (cases "k \<ge> TSIZE")
      case leaf: True
      have e: "wr (parent h) k i = Some P" using kl leaf by (simp add: wr_def P_def)
      show ?thesis
        using True k_def leaf e b' d' by (rule "1.IH"(1))
    next
      case node: False
      have e1: "wr (parent h) (k + 1) i = Some ((parent h)[k + 1 := i])"
        using kl1 node by (simp add: wr_def)
      have e2: "wr ((parent h)[k + 1 := i]) k i = Some P"
        using kl node by (simp add: wr_def P_def)
      show ?thesis
        using True k_def node e1 e2 b' d' by (rule "1.IH"(2))
    qed
    then obtain h' where r: "rebuild_parents (i + 1) ?h = Some h'"
      and fr: "freq h' = freq h" and sn: "son h' = son h"
      and ln: "length (parent h') = length (parent h)"
      and t: "\<forall>p x. i + 1 \<le> p \<and> p < TSIZE \<and> tgt (son h) p x \<longrightarrow> parent h' ! x = p"
      and n: "\<forall>x. (\<forall>p. i + 1 \<le> p \<and> p < TSIZE \<longrightarrow> \<not> tgt (son h) p x) \<longrightarrow> parent h' ! x = P ! x"
      using lP by auto
    have t': "\<forall>p x. i \<le> p \<and> p < TSIZE \<and> tgt (son h) p x \<longrightarrow> parent h' ! x = p"
    proof (intro allI impI)
      fix p x assume a: "i \<le> p \<and> p < TSIZE \<and> tgt (son h) p x"
      show "parent h' ! x = p"
      proof (cases "p = i")
        case False
        with a t show ?thesis by simp
      next
        case pi: True
        have "\<forall>q. i + 1 \<le> q \<and> q < TSIZE \<longrightarrow> \<not> tgt (son h) q x"
        proof (intro allI impI notI)
          fix q assume "i + 1 \<le> q \<and> q < TSIZE" and "tgt (son h) q x"
          with disj a have "p = q" by blast
          with pi \<open>i + 1 \<le> q \<and> q < TSIZE\<close> show False by simp
        qed
        with n have "parent h' ! x = P ! x" by blast
        also have "\<dots> = i" using a pi by (intro Pt) simp
        finally show ?thesis using pi by simp
      qed
    qed
    have n': "\<forall>x. (\<forall>p. i \<le> p \<and> p < TSIZE \<longrightarrow> \<not> tgt (son h) p x) \<longrightarrow> parent h' ! x = parent h ! x"
    proof (intro allI impI)
      fix x assume a: "\<forall>p. i \<le> p \<and> p < TSIZE \<longrightarrow> \<not> tgt (son h) p x"
      then have "\<forall>p. i + 1 \<le> p \<and> p < TSIZE \<longrightarrow> \<not> tgt (son h) p x" by simp
      with n have "parent h' ! x = P ! x" by blast
      also have "\<dots> = parent h ! x" using a True by (intro Pn) simp
      finally show "parent h' ! x = parent h ! x" .
    qed
    show ?thesis unfolding step using r fr sn ln t' n' by simp
  qed
qed

subsection \<open>Consequences of the tree invariant\<close>

lemma son_values_set:
  "x \<in> set son_values \<longleftrightarrow> (TSIZE \<le> x \<and> x < TSIZE + N_CHAR) \<or> (even x \<and> x + 1 < ROOT)"
proof -
  have a: "(x \<in> (\<lambda>s. s + TSIZE) ` {0..<N_CHAR}) \<longleftrightarrow> TSIZE \<le> x \<and> x < TSIZE + N_CHAR"
  proof
    assume "TSIZE \<le> x \<and> x < TSIZE + N_CHAR"
    then have "TSIZE \<le> x" and "x < TSIZE + N_CHAR" by blast+
    then have "x - TSIZE \<in> {0..<N_CHAR}" and "x = (x - TSIZE) + TSIZE"
      by (simp_all add: less_diff_conv2)
    then show "x \<in> (\<lambda>s. s + TSIZE) ` {0..<N_CHAR}" by (rule rev_image_eqI)
  next
    assume "x \<in> (\<lambda>s. s + TSIZE) ` {0..<N_CHAR}"
    then show "TSIZE \<le> x \<and> x < TSIZE + N_CHAR" by auto
  qed
  have b: "(x \<in> (\<lambda>m. 2 * m) ` {0..<N_CHAR - 1}) \<longleftrightarrow> even x \<and> x + 1 < ROOT"
  proof
    assume e: "even x \<and> x + 1 < ROOT"
    then have "x div 2 < N_CHAR - 1" unfolding consts_defs by arith
    then have "x div 2 \<in> {0..<N_CHAR - 1}" by simp
    moreover have "x = 2 * (x div 2)" using e by simp
    ultimately show "x \<in> (\<lambda>m. 2 * m) ` {0..<N_CHAR - 1}" by (rule rev_image_eqI)
  next
    assume "x \<in> (\<lambda>m. 2 * m) ` {0..<N_CHAR - 1}"
    then show "even x \<and> x + 1 < ROOT" by (auto simp: consts_defs)
  qed
  show ?thesis
    unfolding son_values_def by (simp only: set_append set_map set_upt Un_iff a b)
qed

lemma son_values_distinct: "distinct son_values"
proof -
  have "distinct (map (\<lambda>s. s + TSIZE) [0..<N_CHAR])" by (simp add: distinct_map inj_on_def)
  moreover have "distinct (map (\<lambda>m. 2 * m) [0..<N_CHAR - 1])" by (simp add: distinct_map inj_on_def)
  moreover have "set (map (\<lambda>s. s + TSIZE) [0..<N_CHAR]) \<inter> set (map (\<lambda>m. 2 * m) [0..<N_CHAR - 1]) = {}"
    by (auto simp: consts_defs)
  ultimately show ?thesis unfolding son_values_def by (simp only: distinct_append)
qed

lemma tree_coreD:
  assumes "tree_core h"
  shows "arrays_ok h" and "sorted (take TSIZE (freq h))" and "\<forall>p<TSIZE. 1 \<le> freq h ! p"
    and "freq h ! TSIZE = 0xFFFF" and "set (son h) = set son_values"
    and "\<forall>p<TSIZE. son h ! p < TSIZE \<longrightarrow> son h ! p + 1 < p"
    and "\<forall>p<TSIZE. parent h ! (son h ! p) = p
            \<and> (son h ! p < TSIZE \<longrightarrow> parent h ! (son h ! p + 1) = p)"
    and "parent h ! ROOT = 0"
  using assms unfolding tree_core_def by blast+

lemma core_lengths:
  assumes "tree_core h"
  shows "length (parent h) = TSIZE + N_CHAR" and "length (son h) = TSIZE"
    and "length (freq h) = TSIZE + 1"
  using tree_coreD(1)[OF assms] by (simp_all add: arrays_ok_def)

lemma son_values_length: "length son_values = TSIZE"
  by (simp add: son_values_def consts_defs)

lemma sons_distinct:
  assumes "set sn = set son_values" and "length sn = TSIZE"
  shows "distinct sn"
proof -
  have "card (set sn) = length son_values"
    unfolding assms(1) using son_values_distinct by (rule distinct_card)
  then have "card (set sn) = length sn" using assms(2) son_values_length by simp
  then show ?thesis by (rule card_distinct)
qed

lemma sons_cases:
  assumes m: "set sn = set son_values" and n: "length sn = TSIZE" and p: "p < TSIZE"
  shows "(TSIZE \<le> sn ! p \<and> sn ! p < TSIZE + N_CHAR) \<or> (even (sn ! p) \<and> sn ! p + 1 < ROOT)"
proof -
  have "sn ! p \<in> set sn" using p n by simp
  then show ?thesis unfolding m son_values_set .
qed

lemma core_son_set: "tree_core h \<Longrightarrow> set (son h) = set son_values"
  by (rule tree_coreD(5))

lemma core_distinct:
  assumes "tree_core h"
  shows "distinct (son h)"
  using tree_coreD(5)[OF assms] core_lengths(2)[OF assms] by (rule sons_distinct)

lemma core_son_cases:
  assumes c: "tree_core h" and p: "p < TSIZE"
  shows "(TSIZE \<le> son h ! p \<and> son h ! p < TSIZE + N_CHAR) \<or> (even (son h ! p) \<and> son h ! p + 1 < ROOT)"
  using tree_coreD(5)[OF c] core_lengths(2)[OF c] p by (rule sons_cases)

lemma core_mono:
  assumes c: "tree_core h" and "p \<le> q" and "q < TSIZE"
  shows "freq h ! p \<le> freq h ! q"
proof -
  have "take TSIZE (freq h) ! p \<le> take TSIZE (freq h) ! q"
    using tree_coreD(2)[OF c] assms(2,3) core_lengths(3)[OF c] by (intro sorted_nth_mono) simp_all
  then show ?thesis using assms by simp
qed

lemma core_leaf_pos:
  assumes c: "tree_core h" and s: "s < N_CHAR"
  shows "\<exists>p<TSIZE. son h ! p = s + TSIZE \<and> parent h ! (s + TSIZE) = p"
proof -
  have "s + TSIZE \<in> set son_values" unfolding son_values_set using s by simp
  then have "s + TSIZE \<in> set (son h)" by (simp only: core_son_set[OF c])
  then obtain p where p: "p < length (son h)" "son h ! p = s + TSIZE"
    by (auto simp: in_set_conv_nth)
  then have pT: "p < TSIZE" using core_lengths(2)[OF c] by simp
  with tree_coreD(7)[OF c] p(2) have "parent h ! (s + TSIZE) = p" by auto
  with pT p(2) show ?thesis by blast
qed

lemma core_parent_of:
  assumes c: "tree_core h" and q: "q < ROOT"
  shows "\<exists>p<TSIZE. son h ! p < TSIZE \<and> (q = son h ! p \<or> q = son h ! p + 1)
            \<and> parent h ! q = p \<and> q < p"
proof -
  have "even (2 * (q div 2)) \<and> 2 * (q div 2) + 1 < ROOT" using q by (simp add: consts_defs) arith
  then have "2 * (q div 2) \<in> set son_values" unfolding son_values_set by blast
  then have "2 * (q div 2) \<in> set (son h)" by (simp only: core_son_set[OF c])
  then obtain p where p: "p < length (son h)" "son h ! p = 2 * (q div 2)"
    by (auto simp: in_set_conv_nth)
  then have pT: "p < TSIZE" using core_lengths(2)[OF c] by simp
  have sT: "son h ! p < TSIZE" using p(2) q by (simp add: consts_defs)
  have qq: "q = son h ! p \<or> q = son h ! p + 1" using p(2) by arith
  have "parent h ! (son h ! p) = p \<and> parent h ! (son h ! p + 1) = p"
    using tree_coreD(7)[OF c] pT sT by blast
  with qq have par: "parent h ! q = p" by auto
  have "son h ! p + 1 < p" using tree_coreD(6)[OF c] pT sT by blast
  with qq have "q < p" by auto
  with pT sT qq par show ?thesis by blast
qed

lemma tgt_unique:
  assumes c: "set sn = set son_values" and n: "length sn = TSIZE" and p: "p < TSIZE" and q: "q < TSIZE"
    and tp: "tgt (sn) p x" and tq: "tgt (sn) q x"
  shows "p = q"
proof -
  have d: "distinct (sn)" using c n by (rule sons_distinct)
  have l: "length (sn) = TSIZE" by (rule n)
  have same: "sn ! p = sn ! q \<Longrightarrow> p = q"
    using d p q l by (simp add: nth_eq_iff_index_eq)
  have par: "\<And>a b :: nat. even a \<Longrightarrow> even b \<Longrightarrow> a + 1 = b \<Longrightarrow> False" by presburger
  consider "TSIZE \<le> sn ! p" | "even (sn ! p)" "sn ! p < TSIZE"
    using sons_cases[OF c n p] by (auto simp: consts_defs)
  then have "sn ! p = sn ! q"
  proof cases
    case 1
    then have xp: "x = sn ! p" using tp by (simp add: tgt_def)
    consider "TSIZE \<le> sn ! q" | "even (sn ! q)" "sn ! q < TSIZE"
      using sons_cases[OF c n q] by (auto simp: consts_defs)
    then show ?thesis
    proof cases
      case 1
      then show ?thesis using tq xp by (simp add: tgt_def)
    next
      case 2
      then have "x < TSIZE" using tq sons_cases[OF c n q] by (auto simp: tgt_def consts_defs)
      with xp \<open>TSIZE \<le> sn ! p\<close> show ?thesis by simp
    qed
  next
    case 2
    note p2 = 2
    consider "TSIZE \<le> sn ! q" | "even (sn ! q)" "sn ! q < TSIZE"
      using sons_cases[OF c n q] by (auto simp: consts_defs)
    then show ?thesis
    proof cases
      case 1
      then have xq: "x = sn ! q" using tq by (simp add: tgt_def)
      have "x < TSIZE" using tp p2 sons_cases[OF c n p] by (auto simp: tgt_def consts_defs)
      with xq 1 show ?thesis by simp
    next
      case 2
      from tp p2 have "x = sn ! p \<or> x = sn ! p + 1" by (simp add: tgt_def)
      moreover from tq 2 have "x = sn ! q \<or> x = sn ! q + 1" by (simp add: tgt_def)
      ultimately show ?thesis using par[OF p2(1) 2(1)] par[OF 2(1) p2(1)] by auto
    qed
  qed
  then show ?thesis by (rule same)
qed

lemma tgt_bound:
  assumes c: "set sn = set son_values" and n: "length sn = TSIZE" and p: "p < TSIZE" and tp: "tgt (sn) p x"
  shows "x < TSIZE + N_CHAR" and "x \<noteq> ROOT"
  using sons_cases[OF c n p] tp unfolding tgt_def by (auto simp: consts_defs)

lemma sum_list_partition:
  fixes f :: "'a \<Rightarrow> nat"
  shows "sum_list (map f xs) = sum_list (map f (filter P xs)) + sum_list (map f (filter (\<lambda>x. \<not> P x) xs))"
  by (induction xs) simp_all

lemma pairs_sum:
  fixes F :: "nat \<Rightarrow> nat"
  shows "sum_list (map (\<lambda>m. F (2 * m) + F (2 * m + 1)) [0..<n]) = sum_list (map F [0..<2 * n])"
  by (induction n) simp_all

lemma nodes_map_fst:
  assumes "length (freq h) = TSIZE + 1" and "length (son h) = TSIZE"
  shows "map fst (nodes h) = map (\<lambda>p. freq h ! p) [0..<TSIZE]"
  using assms by (intro nth_equalityI) (simp_all add: nodes_def)

lemma nodes_map_snd:
  assumes "length (freq h) = TSIZE + 1" and "length (son h) = TSIZE"
  shows "map snd (nodes h) = son h"
  using assms by (intro nth_equalityI) (simp_all add: nodes_def)

lemma son_values_internal:
  "filter (\<lambda>s. \<not> TSIZE \<le> s) son_values = map (\<lambda>m. 2 * m) [0..<N_CHAR - 1]"
proof -
  have "filter (\<lambda>s. \<not> TSIZE \<le> s) (map (\<lambda>s. s + TSIZE) [0..<N_CHAR]) = []"
    by (simp add: filter_empty_conv)
  moreover have "filter (\<lambda>s. \<not> TSIZE \<le> s) (map (\<lambda>m. 2 * m) [0..<N_CHAR - 1]) = map (\<lambda>m. 2 * m) [0..<N_CHAR - 1]"
    by (rule filter_True) (auto simp: consts_defs)
  ultimately show ?thesis unfolding son_values_def by (simp only: filter_append append_Nil)
qed

lemma son_values_leaf:
  "filter (\<lambda>s. TSIZE \<le> s) son_values = map (\<lambda>s. s + TSIZE) [0..<N_CHAR]"
proof -
  have "filter (\<lambda>s. TSIZE \<le> s) (map (\<lambda>m. 2 * m) [0..<N_CHAR - 1]) = []"
    by (auto simp: filter_empty_conv consts_defs)
  moreover have "filter (\<lambda>s. TSIZE \<le> s) (map (\<lambda>s. s + TSIZE) [0..<N_CHAR]) = map (\<lambda>s. s + TSIZE) [0..<N_CHAR]"
    by (rule filter_True) auto
  ultimately show ?thesis unfolding son_values_def by (simp only: filter_append append_Nil2)
qed

lemma filter_snd: "map snd (filter (\<lambda>n. P (snd n)) ns) = filter P (map snd ns)"
  by (induction ns) simp_all

lemma internal_sons_eq:
  assumes c: "tree_core h"
  shows "map snd (filter (\<lambda>n. \<not> is_leaf n) (nodes h)) = filter (\<lambda>s. \<not> TSIZE \<le> s) (son h)"
proof -
  have "map snd (filter (\<lambda>n. \<not> is_leaf n) (nodes h)) = filter (\<lambda>s. \<not> TSIZE \<le> s) (map snd (nodes h))"
    unfolding is_leaf_def by (rule filter_snd)
  then show ?thesis by (simp only: nodes_map_snd[OF core_lengths(3,2)[OF c]])
qed

lemma leaf_sons_eq:
  assumes c: "tree_core h"
  shows "map snd (leaves h) = filter (\<lambda>s. TSIZE \<le> s) (son h)"
proof -
  have "map snd (filter (\<lambda>n. TSIZE \<le> snd n) (nodes h)) = filter (\<lambda>s. TSIZE \<le> s) (map snd (nodes h))"
    by (rule filter_snd)
  then show ?thesis
    unfolding leaves_def is_leaf_def[abs_def] by (simp only: nodes_map_snd[OF core_lengths(3,2)[OF c]])
qed

lemma core_internal_sons:
  assumes c: "tree_core h"
  shows "set (map snd (filter (\<lambda>n. \<not> is_leaf n) (nodes h))) = (\<lambda>m. 2 * m) ` {0..<N_CHAR - 1}"
proof -
  have "set (filter (\<lambda>s. \<not> TSIZE \<le> s) (son h)) = set (filter (\<lambda>s. \<not> TSIZE \<le> s) son_values)"
    using tree_coreD(5)[OF c] by simp
  also have "\<dots> = (\<lambda>m. 2 * m) ` {0..<N_CHAR - 1}" unfolding son_values_internal by simp
  finally show ?thesis unfolding internal_sons_eq[OF c] .
qed

lemma core_leaf_sons:
  assumes c: "tree_core h"
  shows "set (map snd (leaves h)) = (\<lambda>s. s + TSIZE) ` {0..<N_CHAR}"
proof -
  have "set (filter (\<lambda>s. TSIZE \<le> s) (son h)) = set (filter (\<lambda>s. TSIZE \<le> s) son_values)"
    using tree_coreD(5)[OF c] by simp
  also have "\<dots> = (\<lambda>s. s + TSIZE) ` {0..<N_CHAR}" unfolding son_values_leaf by simp
  finally show ?thesis unfolding leaf_sons_eq[OF c] .
qed

lemma core_leaves_length:
  assumes c: "tree_core h"
  shows "length (leaves h) = N_CHAR"
proof -
  have d: "distinct (map snd (leaves h))"
    unfolding leaf_sons_eq[OF c] using core_distinct[OF c] by (rule distinct_filter)
  have "length (leaves h) = length (map snd (leaves h))" by simp
  also have "\<dots> = card (set (map snd (leaves h)))" using d by (rule distinct_card[symmetric])
  also have "\<dots> = card ((\<lambda>s. s + TSIZE) ` {0..<N_CHAR})" by (simp only: core_leaf_sons[OF c])
  also have "\<dots> = card {0..<N_CHAR}" by (rule card_image) (simp add: inj_on_def)
  finally show ?thesis by simp
qed

text \<open>The root frequency is the total of the leaf frequencies.\<close>

lemma leaf_sum_root:
  assumes c: "tree_core h" and s: "tree_sums TSIZE h"
  shows "sum_list (map fst (leaves h)) = freq h ! ROOT"
proof -
  let ?F = "\<lambda>p. freq h ! p"
  let ?g = "\<lambda>s. ?F s + ?F (s + 1)"
  let ?int = "filter (\<lambda>n. \<not> is_leaf n) (nodes h)"
  note lf = core_lengths(3)[OF c] and ls = core_lengths(2)[OF c]
  have ln: "length (nodes h) = TSIZE" using lf ls by (rule nodes_length')
  have tot: "sum_list (map fst (nodes h)) = sum_list (map ?F [0..<ROOT]) + ?F ROOT"
  proof -
    have "[0..<Suc ROOT] = [0..<ROOT] @ [ROOT]" by (rule upt_Suc_append) simp
    moreover have "Suc ROOT = TSIZE" by (simp add: consts_defs)
    ultimately have "[0..<TSIZE] = [0..<ROOT] @ [ROOT]" by simp
    then show ?thesis unfolding nodes_map_fst[OF lf ls] by simp
  qed
  have ptw: "\<forall>n \<in> set ?int. fst n = ?g (snd n)"
  proof
    fix n assume "n \<in> set ?int"
    then have n: "n \<in> set (nodes h)" and nl: "\<not> is_leaf n" by simp_all
    from n obtain p where p: "p < TSIZE" "nodes h ! p = n"
      using ln by (auto simp: in_set_conv_nth)
    have e: "n = (freq h ! p, son h ! p)" using p lf ls by (simp add: nodes_def)
    have "son h ! p < TSIZE" using nl e by (simp add: is_leaf_def)
    with s p(1) have "freq h ! p = ?g (son h ! p)" by (simp add: tree_sums_def)
    then show "fst n = ?g (snd n)" using e by simp
  qed
  have "map fst ?int = map (\<lambda>n. ?g (snd n)) ?int"
    by (rule map_cong[OF refl]) (use ptw in blast)
  also have "\<dots> = map ?g (map snd ?int)" by (simp only: map_map comp_def)
  finally have "sum_list (map fst ?int) = sum_list (map ?g (map snd ?int))"
    by (rule arg_cong)
  also have "\<dots> = sum ?g (set (map snd ?int))"
  proof (rule sum_list_distinct_conv_sum_set)
    show "distinct (map snd ?int)"
      unfolding internal_sons_eq[OF c] using core_distinct[OF c] by (rule distinct_filter)
  qed
  also have "\<dots> = sum ?g ((\<lambda>m. 2 * m) ` {0..<N_CHAR - 1})"
    by (simp only: core_internal_sons[OF c])
  also have "\<dots> = sum (?g \<circ> (\<lambda>m. 2 * m)) {0..<N_CHAR - 1}"
    by (rule sum.reindex) (simp add: inj_on_def)
  also have "\<dots> = sum (?g \<circ> (\<lambda>m. 2 * m)) (set [0..<N_CHAR - 1])" by simp
  also have "\<dots> = sum_list (map (?g \<circ> (\<lambda>m. 2 * m)) [0..<N_CHAR - 1])"
    by (rule sum_list_distinct_conv_sum_set[symmetric]) simp
  also have "\<dots> = sum_list (map (\<lambda>m. ?F (2 * m) + ?F (2 * m + 1)) [0..<N_CHAR - 1])"
    by (simp add: comp_def)
  also have "\<dots> = sum_list (map ?F [0..<2 * (N_CHAR - 1)])" by (rule pairs_sum)
  also have "2 * (N_CHAR - 1) = ROOT" by (simp add: consts_defs)
  finally have int: "sum_list (map fst ?int) = sum_list (map ?F [0..<ROOT])" .
  have "sum_list (map fst (nodes h)) = sum_list (map fst (leaves h)) + sum_list (map fst ?int)"
    unfolding leaves_def by (rule sum_list_partition)
  with tot int show ?thesis by simp
qed

subsection \<open>The rebuild of a tree is a tree\<close>

lemma halve_sorted: "sorted fs \<Longrightarrow> sorted (map (\<lambda>f. (f + 1) div 2) fs)" for fs :: "nat list"
  by (induction fs) (auto intro: div_le_mono)

lemma halve_sum: "2 * sum_list (map (\<lambda>f. (f + 1) div 2) fs) \<le> sum_list fs + length fs"
  for fs :: "nat list"
  by (induction fs) auto

lemma halve_map_fst: "map fst (map halve ls) = map (\<lambda>f. (f + 1) div 2) (map fst ls)"
  by (simp add: halve_def comp_def)

lemma halve_map_snd: "map snd (map halve ls) = map snd ls"
  by (simp add: halve_def comp_def)

lemma nodes_take_fst:
  assumes "length (freq h) = TSIZE + 1" and "length (son h) = TSIZE"
  shows "map fst (nodes h) = take TSIZE (freq h)"
  using assms by (intro nth_equalityI) (simp_all add: nodes_def)

lemma nodes_nth':
  assumes "length (freq h) = TSIZE + 1" and "length (son h) = TSIZE" and "p < TSIZE"
  shows "nodes h ! p = (freq h ! p, son h ! p)"
  using assms by (simp add: nodes_def)

lemma rebuild_start:
  assumes c: "tree_core h" and r: "freq h ! ROOT \<le> MAX_FREQ"
  shows "rebuild_inv (map halve (leaves h)) (sum_list (map fst (map halve (leaves h)))) 0 N_CHAR
           (take N_CHAR (nodes (rebuild_leaves 0 0 h)))"
proof -
  let ?L = "map halve (leaves h)"
  note lf = core_lengths(3)[OF c] and ls = core_lengths(2)[OF c]
  have ln: "length (nodes h) = TSIZE" using lf ls by (rule nodes_length')
  have small: "\<forall>n \<in> set (nodes h). 1 \<le> fst n \<and> fst n \<le> MAX_FREQ"
  proof
    fix n assume "n \<in> set (nodes h)"
    then obtain p where p: "p < TSIZE" "nodes h ! p = n" using ln by (auto simp: in_set_conv_nth)
    have e: "fst n = freq h ! p" using p nodes_fst[OF lf ls p(1)] by simp
    have "freq h ! p \<le> freq h ! ROOT" using c _ _ by (rule core_mono) (use p in \<open>simp_all add: consts_defs\<close>)
    moreover have "1 \<le> freq h ! p" using tree_coreD(3)[OF c] p(1) by blast
    ultimately show "1 \<le> fst n \<and> fst n \<le> MAX_FREQ" using e r by simp
  qed
  have "\<forall>n \<in> set (filter is_leaf (drop 0 (nodes h))). fst n + 1 < 2 ^ 32"
    using small by (auto simp: consts_defs)
  with ln have "take (0 + length (filter is_leaf (drop 0 (nodes h)))) (nodes (rebuild_leaves 0 0 h))
           = take 0 (nodes h) @ map halve (filter is_leaf (drop 0 (nodes h)))"
    by (intro rebuild_leaves_nodes) simp_all
  then have tk: "take N_CHAR (nodes (rebuild_leaves 0 0 h)) = ?L"
    using core_leaves_length[OF c] by (simp add: leaves_def)
  have "sorted (map fst (nodes h))"
    unfolding nodes_take_fst[OF lf ls] by (rule tree_coreD(2)[OF c])
  then have "sorted (map fst (leaves h))" unfolding leaves_def by (rule sorted_filter)
  then have c3: "sorted (map fst ?L)" unfolding halve_map_fst by (rule halve_sorted)
  have c4: "\<forall>n \<in> set ?L. 1 \<le> fst n"
  proof
    fix n assume "n \<in> set ?L"
    then obtain m where m: "m \<in> set (leaves h)" "n = halve m" by auto
    then have "1 \<le> fst m" using small by (simp add: leaves_def)
    then show "1 \<le> fst n" unfolding m(2) halve_def by simp
  qed
  have c5: "filter is_leaf ?L = ?L"
    by (rule filter_True) (auto simp: leaves_def is_leaf_def halve_def)
  then have c7: "filter (\<lambda>n. \<not> is_leaf n) ?L = []"
    by (auto simp: filter_empty_conv leaves_def is_leaf_def halve_def)
  have c8: "\<forall>p<N_CHAR. \<not> is_leaf (?L ! p) \<longrightarrow>
            snd (?L ! p) + 1 < p
            \<and> fst (?L ! p) = fst (?L ! snd (?L ! p)) + fst (?L ! (snd (?L ! p) + 1))"
  proof (intro allI impI)
    fix p assume "p < N_CHAR" and nl: "\<not> is_leaf (?L ! p)"
    then have "?L ! p \<in> set (filter is_leaf ?L)"
      unfolding c5 using core_leaves_length[OF c] by simp
    with nl show "snd (?L ! p) + 1 < p
            \<and> fst (?L ! p) = fst (?L ! snd (?L ! p)) + fst (?L ! (snd (?L ! p) + 1))" by simp
  qed
  have "rebuild_inv ?L (sum_list (map fst ?L)) 0 N_CHAR ?L"
    unfolding rebuild_inv_def
    using c3 c4 c5 c7 c8 core_leaves_length[OF c] by (simp add: consts_defs)
  then show ?thesis by (simp only: tk)
qed

lemma set_partition_map:
  "set (map f xs) = set (map f (filter P xs)) \<union> set (map f (filter (\<lambda>x. \<not> P x) xs))"
  by auto

text \<open>
  The rebuild of a tree whose root frequency is at most \<open>MAX_FREQ\<close> returns, with a tree
  whose leaves are the old ones halved and whose root frequency is below \<open>MAX_FREQ\<close>.
\<close>

lemma rebuild_correct:
  assumes c: "tree_core h" and s: "tree_sums TSIZE h" and r: "freq h ! ROOT \<le> MAX_FREQ"
  shows "\<exists>h'. rebuild h = Some h' \<and> tree_core h' \<and> tree_sums TSIZE h'
           \<and> leaves h' = map halve (leaves h) \<and> freq h' ! ROOT < MAX_FREQ"
proof -
  let ?L = "map halve (leaves h)"
  let ?T = "sum_list (map fst ?L)"
  let ?h1 = "rebuild_leaves 0 0 h"
  note lf = core_lengths(3)[OF c] and ls = core_lengths(2)[OF c] and lp = core_lengths(1)[OF c]
  have fr1: "parent ?h1 = parent h" "length (freq ?h1) = TSIZE + 1" "length (son ?h1) = TSIZE"
    using rebuild_leaves_frame[of 0 0 h] lf ls by simp_all
  have top1: "freq ?h1 ! TSIZE = freq h ! TSIZE" by (rule rebuild_leaves_freq_top) simp_all
  have T2: "2 * ?T \<le> freq h ! ROOT + N_CHAR"
    using halve_sum[of "map fst (leaves h)"] leaf_sum_root[OF c s] core_leaves_length[OF c]
    unfolding halve_map_fst by simp
  then have T: "?T < MAX_FREQ" using r by (simp add: consts_defs)
  then have T32: "?T < 2 ^ 32" by (simp add: consts_defs)
  from rebuild_nodes_correct[OF fr1(2,3) rebuild_start[OF c r] T32]
  obtain h2 where r2: "rebuild_nodes 0 N_CHAR ?h1 = Some h2"
    and inv: "rebuild_inv ?L ?T (2 * (TSIZE - N_CHAR)) TSIZE (nodes h2)"
    and lf2: "length (freq h2) = TSIZE + 1" and ls2: "length (son h2) = TSIZE"
    and p2: "parent h2 = parent h" and top2: "freq h2 ! TSIZE = freq h ! TSIZE"
    using fr1(1) top1 by auto
  have ms: "set (son h2) = set son_values"
  proof -
    have "set (map snd (nodes h2)) = set (map snd (filter is_leaf (nodes h2)))
            \<union> set (map snd (filter (\<lambda>n. \<not> is_leaf n) (nodes h2)))"
      by (rule set_partition_map)
    also have "filter is_leaf (nodes h2) = ?L" by (rule rebuild_invD(7)[OF inv])
    also have "set (map snd ?L) = (\<lambda>s. s + TSIZE) ` {0..<N_CHAR}"
      unfolding halve_map_snd by (rule core_leaf_sons[OF c])
    also have "set (map snd (filter (\<lambda>n. \<not> is_leaf n) (nodes h2)))
          = (\<lambda>m. 2 * m) ` {0..<TSIZE - N_CHAR}" by (rule rebuild_invD(9)[OF inv])
    also have "TSIZE - N_CHAR = N_CHAR - 1" by (simp add: consts_defs)
    finally show ?thesis unfolding nodes_map_snd[OF lf2 ls2] son_values_def by simp
  qed
  have b: "\<forall>p x. p < TSIZE \<and> tgt (son h2) p x \<longrightarrow> x < length (parent h2)"
    using tgt_bound(1)[OF ms ls2] lp p2 by auto
  have d: "\<forall>p q x. p < TSIZE \<and> q < TSIZE \<and> tgt (son h2) p x \<and> tgt (son h2) q x \<longrightarrow> p = q"
    using tgt_unique[OF ms ls2] by blast
  from rebuild_parents_correct[OF b d, of 0]
  obtain h3 where r3: "rebuild_parents 0 h2 = Some h3"
    and f3: "freq h3 = freq h2" and s3: "son h3 = son h2"
    and lp3: "length (parent h3) = length (parent h2)"
    and t3: "\<forall>p x. p < TSIZE \<and> tgt (son h2) p x \<longrightarrow> parent h3 ! x = p"
    and n3: "\<forall>x. (\<forall>p. p < TSIZE \<longrightarrow> \<not> tgt (son h2) p x) \<longrightarrow> parent h3 ! x = parent h2 ! x"
    by auto
  have n23: "nodes h3 = nodes h2" by (simp add: nodes_def f3 s3)
  have nth2: "nodes h2 ! p = (freq h2 ! p, son h2 ! p)" if "p < TSIZE" for p
    using lf2 ls2 that by (rule nodes_nth')
  have ln2: "length (nodes h2) = TSIZE" using lf2 ls2 by (rule nodes_length')
  have rb: "rebuild h = Some h3" by (simp add: rebuild_def r2 r3)
  have k1: "arrays_ok h3" using lf2 ls2 lp3 p2 lp by (simp add: arrays_ok_def f3 s3)
  have k2: "sorted (take TSIZE (freq h3))"
    using rebuild_invD(5)[OF inv] unfolding nodes_take_fst[OF lf2 ls2] f3 .
  have k3: "\<forall>p<TSIZE. 1 \<le> freq h3 ! p"
  proof (intro allI impI)
    fix p assume p: "p < TSIZE"
    then have "nodes h2 ! p \<in> set (nodes h2)" using ln2 by simp
    with rebuild_invD(6)[OF inv] have "1 \<le> fst (nodes h2 ! p)" by blast
    then show "1 \<le> freq h3 ! p" using nth2[OF p] f3 by simp
  qed
  have k4: "freq h3 ! TSIZE = 0xFFFF" using top2 tree_coreD(4)[OF c] f3 by simp
  have k5: "set (son h3) = set son_values" using ms s3 by simp
  have nd: "son h2 ! p + 1 < p \<and> freq h2 ! p = freq h2 ! (son h2 ! p) + freq h2 ! (son h2 ! p + 1)"
    if p: "p < TSIZE" and i: "son h2 ! p < TSIZE" for p
  proof -
    have "\<not> is_leaf (nodes h2 ! p)" using nth2[OF p] i by (simp add: is_leaf_def)
    with rebuild_invD(10)[OF inv] p
    have a: "snd (nodes h2 ! p) + 1 < p"
      and e: "fst (nodes h2 ! p) = fst (nodes h2 ! snd (nodes h2 ! p)) + fst (nodes h2 ! (snd (nodes h2 ! p) + 1))"
      by blast+
    have a': "son h2 ! p + 1 < p" using a nth2[OF p] by simp
    have "son h2 ! p < TSIZE" "son h2 ! p + 1 < TSIZE" using a' p by simp_all
    then show ?thesis using e a' nth2[OF p] nth2[of "son h2 ! p"] nth2[of "son h2 ! p + 1"] by simp
  qed
  have k6: "\<forall>p<TSIZE. son h3 ! p < TSIZE \<longrightarrow> son h3 ! p + 1 < p"
    using nd s3 by simp
  have k7: "\<forall>p<TSIZE. parent h3 ! (son h3 ! p) = p
            \<and> (son h3 ! p < TSIZE \<longrightarrow> parent h3 ! (son h3 ! p + 1) = p)"
    using t3 unfolding s3 tgt_def by blast
  have k8: "parent h3 ! ROOT = 0"
  proof -
    have "\<forall>p. p < TSIZE \<longrightarrow> \<not> tgt (son h2) p ROOT" using tgt_bound(2)[OF ms ls2] by blast
    with n3 have "parent h3 ! ROOT = parent h2 ! ROOT" by blast
    then show ?thesis using p2 tree_coreD(8)[OF c] by simp
  qed
  have core: "tree_core h3"
    unfolding tree_core_def using k1 k2 k3 k4 k5 k6 k7 k8 by (intro conjI) (simp_all only:)
  have sums: "tree_sums TSIZE h3"
    unfolding tree_sums_def f3 s3 using nd by simp
  have "filter is_leaf (nodes h3) = ?L" unfolding n23 by (rule rebuild_invD(7)[OF inv])
  then have lv: "leaves h3 = ?L" by (simp only: leaves_def[of h3])
  have "freq h3 ! ROOT = ?T" using leaf_sum_root[OF core sums] lv by simp
  with T have "freq h3 ! ROOT < MAX_FREQ" by simp
  with rb core sums lv show ?thesis by blast
qed

section \<open>update: results\<close>

subsection \<open>The search for the swap partner, parents and children\<close>

lemma find_up_unfold:
  "l + 1 < length fr \<Longrightarrow>
   find_up fr k l = (if k > fr ! (l + 1) then find_up fr k (l + 1) else Some (l + 1))"
  by (subst find_up.simps) (simp only: if_True)

lemma find_up_range: "find_up fr k l = Some l1 \<Longrightarrow> l + 1 < length fr"
  by (subst (asm) find_up.simps) (simp split: if_splits)

lemma find_up_Some:
  "find_up fr k l = Some l1 \<Longrightarrow>
   l < l1 \<and> l1 < length fr \<and> k \<le> fr ! l1 \<and> (\<forall>q. l < q \<and> q < l1 \<longrightarrow> fr ! q < k)"
proof (induction fr k l rule: find_up.induct)
  case (1 fr k l)
  from "1.prems" have in_range: "l + 1 < length fr" by (rule find_up_range)
  note eq = find_up_unfold[OF in_range, of k]
  show ?case
  proof (cases "k > fr ! (l + 1)")
    case True
    have "find_up fr k (l + 1) = Some l1"
      using "1.prems" unfolding eq by (simp only: True if_True)
    from "1.IH"[OF in_range True this]
    have a: "l + 1 < l1" "l1 < length fr" "k \<le> fr ! l1" "\<forall>q. l + 1 < q \<and> q < l1 \<longrightarrow> fr ! q < k"
      by blast+
    have "\<forall>q. l < q \<and> q < l1 \<longrightarrow> fr ! q < k"
    proof (intro allI impI)
      fix q assume q: "l < q \<and> q < l1"
      show "fr ! q < k"
      proof (cases "q = l + 1")
        case True
        with \<open>k > fr ! (l + 1)\<close> show ?thesis by simp
      next
        case False
        with q have "l + 1 < q \<and> q < l1" by simp
        with a(4) show ?thesis by blast
      qed
    qed
    with a show ?thesis by simp
  next
    case False
    have "find_up fr k l = Some (l + 1)" unfolding eq by (simp only: False if_False)
    with "1.prems" have "l1 = l + 1" by simp
    with in_range False show ?thesis by simp
  qed
qed

lemma find_up_exists:
  "l < m \<Longrightarrow> m < length fr \<Longrightarrow> k \<le> fr ! m \<Longrightarrow> \<exists>l1. find_up fr k l = Some l1 \<and> l1 \<le> m"
proof (induction fr k l rule: find_up.induct)
  case (1 fr k l)
  have in_range: "l + 1 < length fr" using "1.prems" by simp
  note eq = find_up_unfold[OF in_range, of k]
  show ?case
  proof (cases "k > fr ! (l + 1)")
    case True
    have ne: "l + 1 \<noteq> m" using True "1.prems"(3) by auto
    then have "l + 1 < m" using "1.prems"(1) by simp
    from "1.IH"[OF in_range True this "1.prems"(2,3)]
    obtain l1 where "find_up fr k (l + 1) = Some l1" "l1 \<le> m" by blast
    moreover have "find_up fr k l = find_up fr k (l + 1)"
      unfolding eq by (simp only: True if_True)
    ultimately show ?thesis by simp
  next
    case False
    have "find_up fr k l = Some (l + 1)" unfolding eq by (simp only: False if_False)
    then show ?thesis using "1.prems"(1) by simp
  qed
qed

lemma sorted_take_nth:
  assumes "n \<le> length xs"
  shows "sorted (take n xs) \<longleftrightarrow> (\<forall>p q. p \<le> q \<and> q < n \<longrightarrow> xs ! p \<le> xs ! q)"
proof
  assume s: "sorted (take n xs)"
  show "\<forall>p q. p \<le> q \<and> q < n \<longrightarrow> xs ! p \<le> xs ! q"
  proof (intro allI impI)
    fix p q assume a: "p \<le> q \<and> q < n"
    then have "take n xs ! p \<le> take n xs ! q"
      using s assms by (intro sorted_nth_mono) simp_all
    then show "xs ! p \<le> xs ! q" using a by simp
  qed
next
  assume a: "\<forall>p q. p \<le> q \<and> q < n \<longrightarrow> xs ! p \<le> xs ! q"
  show "sorted (take n xs)"
    unfolding sorted_iff_nth_mono using a assms by simp
qed

lemma child_iff_parent:
  assumes c: "tree_core h" and p: "p < TSIZE" and i: "son h ! p < TSIZE" and q: "q < TSIZE"
  shows "(q = son h ! p \<or> q = son h ! p + 1) \<longleftrightarrow> parent h ! q = p"
proof
  assume "q = son h ! p \<or> q = son h ! p + 1"
  then show "parent h ! q = p" using tree_coreD(7)[OF c] p i by auto
next
  assume e: "parent h ! q = p"
  have lt: "son h ! p + 1 < p" using tree_coreD(6)[OF c] p i by blast
  show "q = son h ! p \<or> q = son h ! p + 1"
  proof (cases "q < ROOT")
    case True
    from core_parent_of[OF c True] obtain p' where p': "p' < TSIZE" "son h ! p' < TSIZE"
      "q = son h ! p' \<or> q = son h ! p' + 1" "parent h ! q = p'" by blast
    then show ?thesis using e by simp
  next
    case False
    then have "q = ROOT" using q by (simp add: consts_defs)
    then have "p = 0" using e tree_coreD(8)[OF c] by simp
    with lt show ?thesis by simp
  qed
qed

lemma core_parent_root:
  assumes c: "tree_core h" and q: "q < TSIZE"
  shows "parent h ! q \<noteq> q" and "parent h ! q < TSIZE"
    and "q < ROOT \<Longrightarrow> q < parent h ! q" and "q < ROOT \<Longrightarrow> son h ! (parent h ! q) < TSIZE"
    and "parent h ! q = 0 \<longleftrightarrow> q = ROOT"
proof -
  have r: "q < parent h ! q \<and> parent h ! q < TSIZE \<and> son h ! (parent h ! q) < TSIZE"
    if "q < ROOT"
  proof -
    from core_parent_of[OF c that] obtain p where "p < TSIZE" "son h ! p < TSIZE"
      "parent h ! q = p" "q < p" by blast
    then show ?thesis by simp
  qed
  have z: "parent h ! q = 0" if "q = ROOT" using tree_coreD(8)[OF c] that by simp
  consider "q < ROOT" | "q = ROOT" using q unfolding consts_defs by arith
  then show "parent h ! q \<noteq> q"
  proof cases
    case 1 with r show ?thesis by simp
  next
    case 2 with z show ?thesis by (simp add: consts_defs)
  qed
  consider "q < ROOT" | "q = ROOT" using q unfolding consts_defs by arith
  then show "parent h ! q < TSIZE"
  proof cases
    case 1 with r show ?thesis by simp
  next
    case 2 with z show ?thesis by (simp add: consts_defs)
  qed
  show "q < ROOT \<Longrightarrow> q < parent h ! q" using r by simp
  show "q < ROOT \<Longrightarrow> son h ! (parent h ! q) < TSIZE" using r by simp
  consider "q < ROOT" | "q = ROOT" using q unfolding consts_defs by arith
  then show "parent h ! q = 0 \<longleftrightarrow> q = ROOT"
  proof cases
    case 1 with r[OF 1] show ?thesis by simp
  next
    case 2 with z show ?thesis by simp
  qed
qed

lemma sums_leaf_defect:
  assumes "d < TSIZE \<longrightarrow> TSIZE \<le> son h ! d"
  shows "tree_sums d h \<longleftrightarrow> tree_sums TSIZE h"
proof -
  have "(if p = d then 1 else 0) = (if p = TSIZE then 1 else (0::nat))"
    if "p < TSIZE" "son h ! p < TSIZE" for p
    using that assms by auto
  then show ?thesis unfolding tree_sums_def by simp
qed

subsection \<open>One pass of the increment loop\<close>

lemma loop_invD:
  assumes "loop_inv c h"
  shows "tree_core h" and "tree_sums c h" and "c < TSIZE"
    and "\<forall>p<TSIZE. freq h ! p \<le> MAX_FREQ"
    and "\<forall>p. c \<le> p \<and> p < TSIZE \<longrightarrow> freq h ! p < MAX_FREQ"
  using assms unfolding loop_inv_def by blast+

lemma sumsD:
  assumes "tree_sums d h" and "p < TSIZE" and "son h ! p < TSIZE"
  shows "freq h ! p + (if p = d then 1 else 0) = freq h ! (son h ! p) + freq h ! (son h ! p + 1)"
  using assms unfolding tree_sums_def by blast

text \<open>A pass in which the incremented node stays in place.\<close>

lemma step_no_swap:
  assumes inv: "loop_inv c h" and le: "freq h ! c + 1 \<le> freq h ! (c + 1)"
  shows "update_step h c = Some (h\<lparr>freq := (freq h)[c := freq h ! c + 1]\<rparr>, c)"
    and "step_post c h (h\<lparr>freq := (freq h)[c := freq h ! c + 1]\<rparr>) c"
proof -
  note c = loop_invD(1)[OF inv] and s = loop_invD(2)[OF inv] and cT = loop_invD(3)[OF inv]
  note lf = core_lengths(3)[OF c] and ls = core_lengths(2)[OF c] and lp = core_lengths(1)[OF c]
  let ?F = "freq h" and ?S = "son h" and ?P = "parent h"
  let ?k = "freq h ! c + 1"
  let ?h = "h\<lparr>freq := (freq h)[c := ?k]\<rparr>"
  have fc: "?F ! c < MAX_FREQ" using loop_invD(5)[OF inv] cT by simp
  have k32: "Suc (?F ! c) mod 4294967296 = Suc (?F ! c)" using fc by (simp add: consts_defs)
  show "update_step h c = Some (?h, c)"
    unfolding update_step_def rd_def Let_def using cT lf le by (simp add: k32)
  have mono: "?F ! p \<le> ?F ! q" if "p \<le> q" "q < TSIZE" for p q
    using c that by (rule core_mono)
  have F': "freq ?h ! p = (if p = c then ?k else ?F ! p)" if "p \<le> TSIZE" for p
    using that lf cT by (simp add: nth_list_update)
  have k1: "arrays_ok ?h" using tree_coreD(1)[OF c] by (simp add: arrays_ok_def)
  have k2: "sorted (take TSIZE (freq ?h))"
  proof -
    have "freq ?h ! p \<le> freq ?h ! q" if pq: "p \<le> q \<and> q < TSIZE" for p q
    proof -
      consider "q = c" | "p = c" "c < q" | "p \<noteq> c" "q \<noteq> c" using pq by linarith
      then show ?thesis
      proof cases
        case 1
        have "?F ! p \<le> ?F ! c" using pq 1 by (intro mono) simp_all
        then show ?thesis using F'[of p] F'[of q] pq 1 by simp
      next
        case 2
        have "?F ! (c + 1) \<le> ?F ! q" using pq 2 by (intro mono) simp_all
        then show ?thesis using F'[of p] F'[of q] pq 2 le by simp
      next
        case 3
        have "?F ! p \<le> ?F ! q" using pq by (intro mono) simp_all
        then show ?thesis using F'[of p] F'[of q] pq 3 by simp
      qed
    qed
    then show ?thesis using lf by (subst sorted_take_nth) simp_all
  qed
  have k3: "\<forall>p<TSIZE. 1 \<le> freq ?h ! p"
    using tree_coreD(3)[OF c] F' by simp
  have k4: "freq ?h ! TSIZE = 0xFFFF" using tree_coreD(4)[OF c] F'[of TSIZE] cT by simp
  have core: "tree_core ?h"
    unfolding tree_core_def
    using k1 k2 k3 k4 tree_coreD(5,6,7,8)[OF c] by simp
  have pc: "?P ! c \<noteq> c" using c cT by (rule core_parent_root)
  have sums: "tree_sums (parent ?h ! c) ?h"
    unfolding tree_sums_def
  proof (intro allI impI)
    fix p assume p: "p < TSIZE" and i: "son ?h ! p < TSIZE"
    then have i': "?S ! p < TSIZE" by simp
    have lt: "?S ! p + 1 < p" using tree_coreD(6)[OF c] p i' by blast
    have ch: "(c = ?S ! p \<or> c = ?S ! p + 1) \<longleftrightarrow> ?P ! c = p"
      using c p i' cT by (rule child_iff_parent)
    note sd = sumsD[OF s p i']
    have a: "freq ?h ! (?S ! p) = (if ?S ! p = c then ?k else ?F ! (?S ! p))"
      using lt p by (intro F') simp
    have b: "freq ?h ! (?S ! p + 1) = (if ?S ! p + 1 = c then ?k else ?F ! (?S ! p + 1))"
      using lt p by (intro F') simp
    have e: "freq ?h ! p = (if p = c then ?k else ?F ! p)" using p by (intro F') simp
    show "freq ?h ! p + (if p = parent ?h ! c then 1 else 0)
          = freq ?h ! (son ?h ! p) + freq ?h ! (son ?h ! p + 1)"
    proof (cases "p = c")
      case True
      then have "?P ! c \<noteq> p" using pc by simp
      moreover have "?S ! p \<noteq> c" "?S ! p + 1 \<noteq> c" using lt True by simp_all
      ultimately show ?thesis using sd a b e True by simp
    next
      case False
      show ?thesis
      proof (cases "?P ! c = p")
        case True
        with ch have "c = ?S ! p \<or> c = ?S ! p + 1" by simp
        then show ?thesis using sd a b e False True by auto
      next
        case np: False
        with ch have "c \<noteq> ?S ! p" "c \<noteq> ?S ! p + 1" by auto
        then show ?thesis using sd a b e False np by auto
      qed
    qed
  qed
  have b1: "\<forall>p<TSIZE. freq ?h ! p \<le> MAX_FREQ"
    using loop_invD(4)[OF inv] F' fc by simp
  have b2: "\<forall>p. c < p \<and> p < TSIZE \<longrightarrow> freq ?h ! p < MAX_FREQ"
    using loop_invD(5)[OF inv] F' by simp
  have rt: "freq ?h ! ROOT = ?F ! ROOT + (if c = ROOT then 1 else 0)"
    using F'[of ROOT] by (simp add: consts_defs)
  show "step_post c h ?h c"
    unfolding step_post_def using cT core sums b1 b2 rt by simp
qed

lemma relink_length: "length (relink P s t) = length P"
  by (simp add: relink_def)

lemma relink_nth:
  assumes "s < length P" and "s < TSIZE \<longrightarrow> s + 1 < length P"
  shows "relink P s t ! x = (if x = s \<or> (s < TSIZE \<and> x = s + 1) then t else P ! x)"
  using assms by (auto simp: relink_def nth_list_update)

lemma update_step_swap_eval:
  assumes "c + 1 < length (freq h)" and "(freq h ! c + 1) mod 2 ^ 32 = k"
    and "freq h ! (c + 1) < k"
    and "find_up ((freq h)[c := k]) k (c + 1) = Some l1"
    and "c < length (son h)" and "l1 - 1 < length (son h)"
    and "son h ! c < length (parent h)"
    and "son h ! c < TSIZE \<longrightarrow> son h ! c + 1 < length (parent h)"
    and "son h ! (l1 - 1) < length (parent h)"
    and "son h ! (l1 - 1) < TSIZE \<longrightarrow> son h ! (l1 - 1) + 1 < length (parent h)"
  shows "update_step h c =
           Some (h\<lparr>parent := relink (relink (parent h) (son h ! c) (l1 - 1)) (son h ! (l1 - 1)) c,
                   son := (son h)[l1 - 1 := son h ! c, c := son h ! (l1 - 1)],
                   freq := (freq h)[c := k, c := ((freq h)[c := k]) ! (l1 - 1), l1 - 1 := k]\<rparr>,
                 l1 - 1)"
  using assms unfolding update_step_def
  by (simp add: rd_def wr_def Let_def relink_def nth_list_update)

lemma core_tgt_parent:
  assumes "tree_core h" and "p < TSIZE" and "tgt (son h) p x"
  shows "parent h ! x = p"
  using tree_coreD(7)[OF assms(1)] assms(2,3) unfolding tgt_def by blast

text \<open>
  A pass in which the incremented node \<open>c\<close> is exchanged with the last node \<open>l\<close> of equal
  frequency; \<open>l\<close> is never the root.
\<close>

lemma step_swap:
  assumes inv: "loop_inv c h" and gt: "freq h ! (c + 1) < freq h ! c + 1"
  shows "\<exists>h' l. update_step h c = Some (h', l) \<and> step_post c h h' l"
proof -
  note c = loop_invD(1)[OF inv] and s = loop_invD(2)[OF inv] and cT = loop_invD(3)[OF inv]
  note lf = core_lengths(3)[OF c] and ls = core_lengths(2)[OF c] and lp = core_lengths(1)[OF c]
  note ms = tree_coreD(5)[OF c]
  let ?F = "freq h" and ?S = "son h" and ?P = "parent h"
  define k where "k = freq h ! c + 1"
  define fr1 where "fr1 = (freq h)[c := k]"
  have fc: "?F ! c < MAX_FREQ" using loop_invD(5)[OF inv] cT by simp
  have kM: "k \<le> MAX_FREQ" using fc by (simp add: k_def)
  have k32: "(?F ! c + 1) mod 2 ^ 32 = k" using fc by (simp add: consts_defs k_def)
  have mono: "?F ! p \<le> ?F ! q" if "p \<le> q" "q < TSIZE" for p q
    using c that by (rule core_mono)
  have top: "?F ! TSIZE = 0xFFFF" by (rule tree_coreD(4)[OF c])
  have c1: "c + 1 < TSIZE"
  proof (rule ccontr)
    assume "\<not> c + 1 < TSIZE"
    then have "c + 1 = TSIZE" using cT by simp
    then show False using gt top fc by (simp add: consts_defs)
  qed
  have fr1_nth: "fr1 ! q = ?F ! q" if "q \<noteq> c" for q using that by (simp add: fr1_def)
  have "\<exists>l1. find_up fr1 k (c + 1) = Some l1 \<and> l1 \<le> TSIZE"
  proof (rule find_up_exists[OF c1])
    show "TSIZE < length fr1" using lf by (simp add: fr1_def)
    show "k \<le> fr1 ! TSIZE" using fr1_nth[of TSIZE] cT top kM by (simp add: consts_defs)
  qed
  then obtain l1 where fu: "find_up fr1 k (c + 1) = Some l1" and l1T: "l1 \<le> TSIZE" by blast
  from find_up_Some[OF fu] have l1c: "c + 1 < l1" and kl1: "k \<le> fr1 ! l1"
    and btw: "\<forall>q. c + 1 < q \<and> q < l1 \<longrightarrow> fr1 ! q < k" by blast+
  define l where "l = l1 - 1"
  have l1: "l1 = l + 1" using l1c by (simp add: l_def)
  have cl: "c < l" and lT: "l < TSIZE" using l1c l1T by (simp_all add: l_def)
  have eqfc: "?F ! q = ?F ! c" if q: "c < q" "q \<le> l" for q
  proof -
    have "?F ! q < k"
    proof (cases "q = c + 1")
      case True
      then show ?thesis using gt by (simp add: k_def)
    next
      case False
      then have "c + 1 < q \<and> q < l1" using q l1 by simp
      with btw have "fr1 ! q < k" by blast
      then show ?thesis using fr1_nth[of q] q by simp
    qed
    moreover have "?F ! c \<le> ?F ! q" using q lT by (intro mono) simp_all
    ultimately show ?thesis by (simp add: k_def)
  qed
  have Fl: "?F ! l = ?F ! c" using cl by (intro eqfc) simp_all
  have above: "k \<le> ?F ! q" if q: "l < q" "q < TSIZE" for q
  proof -
    have "l1 < TSIZE" using q l1 by simp
    have "k \<le> ?F ! l1" using kl1 fr1_nth[of l1] l1c by simp
    also have "\<dots> \<le> ?F ! q" using q l1 by (intro mono) simp_all
    finally show ?thesis .
  qed
  define i where "i = son h ! c"
  define j where "j = son h ! l"
  have ic: "(TSIZE \<le> i \<and> i < TSIZE + N_CHAR) \<or> (even i \<and> i + 1 < ROOT)"
    unfolding i_def using ms ls cT by (rule sons_cases)
  have jc: "(TSIZE \<le> j \<and> j < TSIZE + N_CHAR) \<or> (even j \<and> j + 1 < ROOT)"
    unfolding j_def using ms ls lT by (rule sons_cases)
  have ilt: "i + 1 < c" if "i < TSIZE" using tree_coreD(6)[OF c] cT that by (simp add: i_def)
  have sl: "?F ! l = ?F ! j + ?F ! (j + 1)" if "j < TSIZE"
    using sumsD[OF s lT] that cl by (simp add: j_def)
  have jl0: "j + 1 < l" if "j < TSIZE" using tree_coreD(6)[OF c] lT that by (simp add: j_def)
  have jlt: "j + 1 < c" if jT: "j < TSIZE"
  proof (rule ccontr)
    assume "\<not> j + 1 < c"
    then have "c \<le> j + 1" by simp
    then have "?F ! c \<le> ?F ! (j + 1)" using jl0[OF jT] lT by (intro mono) simp_all
    moreover have "1 \<le> ?F ! j" using tree_coreD(3)[OF c] jT by blast
    ultimately show False using sl[OF jT] Fl by simp
  qed
  have fr3: "fr1[c := fr1 ! l, l := k] = ?F[l := k]"
  proof -
    have "fr1 ! l = ?F ! c" using fr1_nth[of l] cl Fl by simp
    then have "fr1[c := fr1 ! l] = ?F" by (simp add: fr1_def)
    then show ?thesis by simp
  qed
  define P' where "P' = relink (relink ?P i l) j c"
  define S' where "S' = ?S[l := i, c := j]"
  define h' where "h' = h\<lparr>parent := P', son := S', freq := ?F[l := k]\<rparr>"
  have iP: "i < length ?P \<and> (i < TSIZE \<longrightarrow> i + 1 < length ?P)"
    using ic lp by (auto simp: consts_defs)
  have jP: "j < length ?P \<and> (j < TSIZE \<longrightarrow> j + 1 < length ?P)"
    using jc lp by (auto simp: consts_defs)
  have ev: "update_step h c = Some (h', l)"
  proof -
    have "update_step h c =
           Some (h\<lparr>parent := relink (relink (parent h) (son h ! c) (l1 - 1)) (son h ! (l1 - 1)) c,
                   son := (son h)[l1 - 1 := son h ! c, c := son h ! (l1 - 1)],
                   freq := (freq h)[c := k, c := ((freq h)[c := k]) ! (l1 - 1), l1 - 1 := k]\<rparr>,
                 l1 - 1)"
    proof (rule update_step_swap_eval[OF _ k32])
      show "c + 1 < length ?F" using c1 lf by simp
      show "?F ! (c + 1) < k" using gt by (simp add: k_def)
      show "find_up (?F[c := k]) k (c + 1) = Some l1" using fu by (simp add: fr1_def)
      show "c < length ?S" using cT ls by simp
      show "l1 - 1 < length ?S" using lT ls by (simp add: l_def)
      show "?S ! c < length ?P" using iP unfolding i_def by blast
      show "?S ! c < TSIZE \<longrightarrow> ?S ! c + 1 < length ?P" using iP unfolding i_def by blast
      show "?S ! (l1 - 1) < length ?P" using jP unfolding j_def l_def by blast
      show "?S ! (l1 - 1) < TSIZE \<longrightarrow> ?S ! (l1 - 1) + 1 < length ?P"
        using jP unfolding j_def l_def by blast
    qed
    then show ?thesis
      unfolding h'_def P'_def S'_def i_def j_def l_def[symmetric] fr1_def[symmetric] fr3 .
  qed
  have tc: "tgt ?S c x \<longleftrightarrow> x = i \<or> (i < TSIZE \<and> x = i + 1)" for x
    by (simp add: tgt_def i_def)
  have tl: "tgt ?S l x \<longleftrightarrow> x = j \<or> (j < TSIZE \<and> x = j + 1)" for x
    by (simp add: tgt_def j_def)
  have uniq: "p = q" if "p < TSIZE" "q < TSIZE" "tgt ?S p x" "tgt ?S q x" for p q x
    using ms ls that by (rule tgt_unique)
  have P'_nth: "P' ! x = (if tgt ?S l x then c else if tgt ?S c x then l else ?P ! x)" for x
  proof -
    have a: "relink ?P i l ! y = (if tgt ?S c y then l else ?P ! y)" for y
      unfolding tc using ic lp by (intro relink_nth) (auto simp: consts_defs)
    have "P' ! x = (if tgt ?S l x then c else relink ?P i l ! x)"
      unfolding tl P'_def using jc lp
      by (intro relink_nth) (auto simp: consts_defs relink_length)
    then show ?thesis using a by simp
  qed
  have S'_nth: "S' ! p = (if p = c then j else if p = l then i else ?S ! p)" if "p < TSIZE" for p
    using that ls cl by (simp add: S'_def nth_list_update i_def j_def)
  have F'_nth: "?F[l := k] ! p = (if p = l then k else ?F ! p)" if "p \<le> TSIZE" for p
    using that lf by (simp add: nth_list_update)
  have tS': "tgt S' p x \<longleftrightarrow> (if p = c then tgt ?S l x else if p = l then tgt ?S c x else tgt ?S p x)"
    if "p < TSIZE" for p x
    using S'_nth[OF that] by (simp add: tgt_def i_def j_def)
  have k1: "arrays_ok h'"
    using lf ls lp by (simp add: arrays_ok_def h'_def P'_def S'_def relink_length)
  have k2: "sorted (take TSIZE (freq h'))"
  proof -
    have "?F[l := k] ! p \<le> ?F[l := k] ! q" if pq: "p \<le> q \<and> q < TSIZE" for p q
    proof -
      consider "q = l" | "p = l" "l < q" | "p \<noteq> l" "q \<noteq> l" using pq by linarith
      then show ?thesis
      proof cases
        case 1
        have "?F ! p \<le> ?F ! l" using pq 1 by (intro mono) simp_all
        then show ?thesis using F'_nth[of p] F'_nth[of q] pq 1 Fl by (simp add: k_def)
      next
        case 2
        have "k \<le> ?F ! q" using 2 pq by (intro above) simp_all
        then show ?thesis using F'_nth[of p] F'_nth[of q] pq 2 by simp
      next
        case 3
        have "?F ! p \<le> ?F ! q" using pq by (intro mono) simp_all
        then show ?thesis using F'_nth[of p] F'_nth[of q] pq 3 by simp
      qed
    qed
    then show ?thesis using lf by (subst sorted_take_nth) (simp_all add: h'_def)
  qed
  have k3: "\<forall>p<TSIZE. 1 \<le> freq h' ! p"
    using tree_coreD(3)[OF c] F'_nth by (simp add: h'_def k_def)
  have k4: "freq h' ! TSIZE = 0xFFFF" using top F'_nth[of TSIZE] lT by (simp add: h'_def)
  have k5: "set (son h') = set son_values"
  proof -
    have "set (?S[l := ?S ! c, c := ?S ! l]) = set ?S"
      using cT lT ls by (intro set_swap) simp_all
    then show ?thesis using ms by (simp add: h'_def S'_def i_def j_def)
  qed
  have k6: "\<forall>p<TSIZE. son h' ! p < TSIZE \<longrightarrow> son h' ! p + 1 < p"
  proof (intro allI impI)
    fix p assume p: "p < TSIZE" and ii: "son h' ! p < TSIZE"
    have e: "son h' ! p = (if p = c then j else if p = l then i else ?S ! p)"
      using S'_nth[OF p] by (simp add: h'_def)
    consider "p = c" | "p = l" | "p \<noteq> c" "p \<noteq> l" by blast
    then show "son h' ! p + 1 < p"
    proof cases
      case 1
      then show ?thesis using e ii jlt by simp
    next
      case 2
      then have "i < TSIZE" using e ii cl by simp
      from ilt[OF this] show ?thesis using e 2 cl by simp
    next
      case 3
      then show ?thesis using e ii tree_coreD(6)[OF c] p by simp
    qed
  qed
  have par: "P' ! x = p" if p: "p < TSIZE" and t: "tgt S' p x" for p x
  proof -
    consider "p = c" | "p = l" | "p \<noteq> c" "p \<noteq> l" by blast
    then show ?thesis
    proof cases
      case 1
      then have "tgt ?S l x" using t tS'[OF p] by simp
      then show ?thesis using P'_nth[of x] 1 by simp
    next
      case 2
      then have a: "tgt ?S c x" using t tS'[OF p] cl by simp
      have "\<not> tgt ?S l x" using uniq[OF cT lT a] cl by auto
      then show ?thesis using P'_nth[of x] a 2 by simp
    next
      case 3
      then have a: "tgt ?S p x" using t tS'[OF p] by simp
      have "\<not> tgt ?S l x" using uniq[OF p lT a] 3 by auto
      moreover have "\<not> tgt ?S c x" using uniq[OF p cT a] 3 by auto
      ultimately have "P' ! x = ?P ! x" using P'_nth[of x] by simp
      also have "\<dots> = p" using c p a by (rule core_tgt_parent)
      finally show ?thesis .
    qed
  qed
  have k7: "\<forall>p<TSIZE. parent h' ! (son h' ! p) = p
            \<and> (son h' ! p < TSIZE \<longrightarrow> parent h' ! (son h' ! p + 1) = p)"
  proof (intro allI impI conjI)
    fix p assume p: "p < TSIZE"
    have "tgt S' p (S' ! p)" by (simp add: tgt_def)
    from par[OF p this] show "parent h' ! (son h' ! p) = p" by (simp add: h'_def)
    assume "son h' ! p < TSIZE"
    then have "tgt S' p (S' ! p + 1)" by (simp add: tgt_def h'_def)
    from par[OF p this] show "parent h' ! (son h' ! p + 1) = p" by (simp add: h'_def)
  qed
  have unt: "P' ! x = ?P ! x" if "x < TSIZE" "c < x" for x
  proof -
    have "\<not> tgt ?S c x" unfolding tc using ilt that by auto
    moreover have "\<not> tgt ?S l x" unfolding tl using jlt that by auto
    ultimately show ?thesis using P'_nth[of x] by simp
  qed
  have k8: "parent h' ! ROOT = 0"
  proof -
    have "ROOT < TSIZE" "c < ROOT" using c1 by (simp_all add: consts_defs)
    from unt[OF this] show ?thesis using tree_coreD(8)[OF c] by (simp add: h'_def)
  qed
  have core: "tree_core h'"
    unfolding tree_core_def using k1 k2 k3 k4 k5 k6 k7 k8 by (intro conjI) (simp_all only:)
  have Pl: "parent h' ! l = ?P ! l" using unt[OF lT cl] by (simp add: h'_def)
  have pl: "?P ! l \<noteq> l" using c lT by (rule core_parent_root)
  have sums: "tree_sums (parent h' ! l) h'"
    unfolding tree_sums_def Pl
  proof (intro allI impI)
    fix p assume p: "p < TSIZE" and ii: "son h' ! p < TSIZE"
    have e: "son h' ! p = (if p = c then j else if p = l then i else ?S ! p)"
      using S'_nth[OF p] by (simp add: h'_def)
    have lt: "son h' ! p + 1 < p" using k6 p ii by blast
    have f0: "freq h' ! p = (if p = l then k else ?F ! p)"
      using F'_nth[of p] p by (simp add: h'_def)
    have f1: "freq h' ! (son h' ! p) = (if son h' ! p = l then k else ?F ! (son h' ! p))"
      using F'_nth[of "son h' ! p"] ii by (simp add: h'_def)
    have f2: "freq h' ! (son h' ! p + 1) = (if son h' ! p + 1 = l then k else ?F ! (son h' ! p + 1))"
      using F'_nth[of "son h' ! p + 1"] ii by (simp add: h'_def)
    consider "p = c" | "p = l" | "p \<noteq> c" "p \<noteq> l" by blast
    then show "freq h' ! p + (if p = ?P ! l then 1 else 0)
          = freq h' ! (son h' ! p) + freq h' ! (son h' ! p + 1)"
    proof cases
      case 1
      then have jT: "j < TSIZE" and sj: "son h' ! p = j" using e ii by simp_all
      have "?P ! l \<noteq> c"
      proof
        assume e: "?P ! l = c"
        show False
        proof (cases "l < ROOT")
          case True
          have "l < ?P ! l" using c lT True by (rule core_parent_root)
          with e cl show False by simp
        next
          case False
          then have "l = ROOT" using lT unfolding consts_defs by arith
          then have "?P ! l = 0" using tree_coreD(8)[OF c] by simp
          with e jlt[OF jT] show False by simp
        qed
      qed
      then show ?thesis using 1 f0 f1 f2 sj sl[OF jT] Fl jlt[OF jT] cl by simp
    next
      case 2
      then have iT: "i < TSIZE" and si: "son h' ! p = i" using e ii cl by simp_all
      have "?F ! c + 1 = ?F ! i + ?F ! (i + 1)" using sumsD[OF s cT] iT by (simp add: i_def)
      then show ?thesis using 2 f0 f1 f2 si ilt[OF iT] cl pl by (simp add: k_def)
    next
      case 3
      then have sp: "son h' ! p = ?S ! p" using e by simp
      have i': "?S ! p < TSIZE" using ii sp by simp
      have ch: "(l = ?S ! p \<or> l = ?S ! p + 1) \<longleftrightarrow> ?P ! l = p"
        using c p i' lT by (rule child_iff_parent)
      have sd: "?F ! p = ?F ! (?S ! p) + ?F ! (?S ! p + 1)"
        using sumsD[OF s p i'] 3 by simp
      show ?thesis
      proof (cases "?P ! l = p")
        case True
        with ch have "l = ?S ! p \<or> l = ?S ! p + 1" by simp
        then show ?thesis using sd f0 f1 f2 sp 3 True Fl by (auto simp: k_def)
      next
        case np: False
        with ch have "l \<noteq> ?S ! p" "l \<noteq> ?S ! p + 1" by auto
        then show ?thesis using sd f0 f1 f2 sp 3 np by auto
      qed
    qed
  qed
  have b1: "\<forall>p<TSIZE. freq h' ! p \<le> MAX_FREQ"
    using loop_invD(4)[OF inv] F'_nth kM by (simp add: h'_def)
  have b2: "\<forall>p. l < p \<and> p < TSIZE \<longrightarrow> freq h' ! p < MAX_FREQ"
    using loop_invD(5)[OF inv] F'_nth cl by (simp add: h'_def)
  have lR: "l < ROOT"
  proof -
    have cR: "c < ROOT" using c1 by (simp add: consts_defs)
    from core_parent_of[OF c cR] obtain p where p: "p < TSIZE" "?S ! p < TSIZE"
      "c = ?S ! p \<or> c = ?S ! p + 1" "c < p" by blast
    have lt: "?S ! p + 1 < p" using tree_coreD(6)[OF c] p(1,2) by blast
    have sp: "?F ! p = ?F ! (?S ! p) + ?F ! (?S ! p + 1)" using sumsD[OF s p(1,2)] p(4) by simp
    have "1 \<le> ?F ! (?S ! p)" "1 \<le> ?F ! (?S ! p + 1)"
      using tree_coreD(3)[OF c] lt p(1) by simp_all
    then have "?F ! c < ?F ! p" using sp p(3) by auto
    then have "\<not> p \<le> l" using eqfc[of p] p(4) by auto
    then show ?thesis using p(1) by (simp add: consts_defs)
  qed
  have rt: "freq h' ! ROOT = ?F ! ROOT + (if c = ROOT then 1 else 0)"
    using F'_nth[of ROOT] lR cl by (simp add: h'_def consts_defs)
  have "step_post c h h' l"
    unfolding step_post_def using cl lT lR core sums b1 b2 rt by simp
  with ev show ?thesis by blast
qed

subsection \<open>The increment loop and update\<close>

lemma update_step_correct:
  assumes inv: "loop_inv c h"
  shows "\<exists>h' c'. update_step h c = Some (h', c') \<and> step_post c h h' c'"
proof (cases "freq h ! (c + 1) < freq h ! c + 1")
  case True
  with inv show ?thesis by (rule step_swap)
next
  case False
  then have le: "freq h ! c + 1 \<le> freq h ! (c + 1)" by simp
  from step_no_swap[OF inv le] show ?thesis by blast
qed

lemma step_postD:
  assumes "step_post c h h' c'"
  shows "c \<le> c'" and "c' < TSIZE" and "tree_core h'" and "tree_sums (parent h' ! c') h'"
    and "\<forall>p<TSIZE. freq h' ! p \<le> MAX_FREQ"
    and "\<forall>p. c' < p \<and> p < TSIZE \<longrightarrow> freq h' ! p < MAX_FREQ"
    and "c' = ROOT \<longleftrightarrow> c = ROOT"
    and "freq h' ! ROOT = freq h ! ROOT + (if c = ROOT then 1 else 0)"
  using assms unfolding step_post_def by blast+

lemma core_first_leaf: "tree_core h \<Longrightarrow> TSIZE \<le> son h ! 0"
  using tree_coreD(6)[of h] by (fastforce simp: consts_defs)

text \<open>
  The loop returns: the node visited moves up at every pass. It ends with a tree whose
  root frequency is one more than before.
\<close>

lemma update_loop_correct:
  assumes "loop_inv c h"
  shows "\<exists>h'. update_loop h c = Some h' \<and> tree_core h' \<and> tree_sums TSIZE h'
           \<and> (\<forall>p<TSIZE. freq h' ! p \<le> MAX_FREQ)
           \<and> freq h' ! ROOT = freq h ! ROOT + 1"
  using assms
proof (induction "TSIZE - c" arbitrary: c h rule: less_induct)
  case less
  note inv = less.prems
  from update_step_correct[OF inv] obtain h1 c1
    where st: "update_step h c = Some (h1, c1)" and post: "step_post c h h1 c1" by blast
  note cc = step_postD(1)[OF post] and c1T = step_postD(2)[OF post]
    and core = step_postD(3)[OF post] and sums = step_postD(4)[OF post]
    and b1 = step_postD(5)[OF post] and b2 = step_postD(6)[OF post]
    and rr = step_postD(7)[OF post] and rt = step_postD(8)[OF post]
  let ?p = "parent h1 ! c1"
  have rd: "rd (parent h1) c1 = Some ?p"
    using c1T core_lengths(1)[OF core] by (simp add: rd_def)
  have unf: "update_loop h c = (if ?p \<noteq> 0 then update_loop h1 ?p else Some h1)"
    by (subst update_loop.simps) (simp add: st rd)
  show ?case
  proof (cases "?p = 0")
    case True
    have "TSIZE \<le> son h1 ! 0" using core by (rule core_first_leaf)
    then have "tree_sums 0 h1 \<longleftrightarrow> tree_sums TSIZE h1" by (intro sums_leaf_defect) simp
    then have "tree_sums TSIZE h1" using sums True by simp
    moreover have "c1 = ROOT" using core_parent_root(5)[OF core c1T] True by simp
    then have "freq h1 ! ROOT = freq h ! ROOT + 1" using rr rt by simp
    ultimately show ?thesis using unf True core b1 by simp
  next
    case False
    have nr: "c1 \<noteq> ROOT" using core_parent_root(5)[OF core c1T] False by simp
    then have c1R: "c1 < ROOT" using c1T unfolding consts_defs by arith
    have pc: "c1 < ?p" using core c1T c1R by (rule core_parent_root)
    have pT: "?p < TSIZE" using core c1T by (rule core_parent_root)
    have inv1: "loop_inv ?p h1"
      unfolding loop_inv_def using core sums pT b1 b2 pc by auto
    have "TSIZE - ?p < TSIZE - c" using pc cc pT by simp
    from less.hyps[OF this inv1] obtain h' where
      r: "update_loop h1 ?p = Some h'" and k: "tree_core h'" "tree_sums TSIZE h'"
        "\<forall>p<TSIZE. freq h' ! p \<le> MAX_FREQ"
      and l: "freq h' ! ROOT = freq h1 ! ROOT + 1"
      by auto
    have "freq h1 ! ROOT = freq h ! ROOT" using rr rt nr by simp
    then show ?thesis using unf False r k l by simp
  qed
qed

lemma tree_invD:
  assumes "tree_inv h"
  shows "tree_core h" and "tree_sums TSIZE h" and "freq h ! ROOT \<le> MAX_FREQ"
  using assms unfolding tree_inv_def by blast+

lemma update_unfold:
  assumes c: "tree_core h" and s: "s < N_CHAR"
  shows "update h s = (if freq h ! ROOT = MAX_FREQ then rebuild h else Some h)
                        \<bind> (\<lambda>h1. rd (parent h1) (s + TSIZE) \<bind> update_loop h1)"
  unfolding update_def rd_def using core_lengths(3)[OF c] by (simp add: consts_defs)

lemma update_after:
  assumes c: "tree_core h" and su: "tree_sums TSIZE h" and r: "freq h ! ROOT < MAX_FREQ"
    and s: "s < N_CHAR"
  shows "\<exists>h'. rd (parent h) (s + TSIZE) \<bind> update_loop h = Some h'
           \<and> tree_inv h' \<and> freq h' ! ROOT = freq h ! ROOT + 1"
proof -
  note lf = core_lengths(3)[OF c] and ls = core_lengths(2)[OF c] and lp = core_lengths(1)[OF c]
  let ?c = "parent h ! (s + TSIZE)"
  from core_leaf_pos[OF c s] have cT: "?c < TSIZE" and sc: "son h ! ?c = s + TSIZE" by auto
  have rd: "rd (parent h) (s + TSIZE) = Some ?c" using s lp by (simp add: rd_def)
  have "tree_sums ?c h \<longleftrightarrow> tree_sums TSIZE h" by (rule sums_leaf_defect) (simp add: sc)
  then have su': "tree_sums ?c h" using su by simp
  have bound: "freq h ! p < MAX_FREQ" if "p < TSIZE" for p
  proof -
    have "freq h ! p \<le> freq h ! ROOT"
      using c _ _ by (rule core_mono) (use that in \<open>simp_all add: consts_defs\<close>)
    with r show ?thesis by simp
  qed
  have inv: "loop_inv ?c h"
    unfolding loop_inv_def using c su' cT bound by (auto intro: less_imp_le)
  from update_loop_correct[OF inv] obtain h' where
    ul: "update_loop h ?c = Some h'" and c': "tree_core h'" and su'': "tree_sums TSIZE h'"
    and b: "\<forall>p<TSIZE. freq h' ! p \<le> MAX_FREQ"
    and root: "freq h' ! ROOT = freq h ! ROOT + 1"
    by auto
  have "ROOT < TSIZE" by (simp add: consts_defs)
  with b have "freq h' ! ROOT \<le> MAX_FREQ" by blast
  with c' su'' have ti: "tree_inv h'" by (simp add: tree_inv_def)
  show ?thesis using rd ul ti root by auto
qed

text \<open>\<open>update\<close> returns for every symbol below \<open>N_CHAR\<close> and keeps the tree invariant.\<close>

lemma update_correct:
  assumes t: "tree_inv h" and s: "s < N_CHAR"
  shows "\<exists>h'. update h s = Some h' \<and> tree_inv h'"
proof (cases "freq h ! ROOT = MAX_FREQ")
  case True
  from rebuild_correct[OF tree_invD[OF t]] obtain h1 where
    rb: "rebuild h = Some h1" and k: "tree_core h1" "tree_sums TSIZE h1" "freq h1 ! ROOT < MAX_FREQ"
    by blast
  from update_after[OF k s] obtain h' where
    "rd (parent h1) (s + TSIZE) \<bind> update_loop h1 = Some h'" "tree_inv h'" by blast
  then show ?thesis unfolding update_unfold[OF tree_invD(1)[OF t] s] using True rb by simp
next
  case False
  then have "freq h ! ROOT < MAX_FREQ" using tree_invD(3)[OF t] by simp
  from update_after[OF tree_invD(1,2)[OF t] this s] obtain h' where
    "rd (parent h) (s + TSIZE) \<bind> update_loop h = Some h'" "tree_inv h'" by blast
  then show ?thesis unfolding update_unfold[OF tree_invD(1)[OF t] s] using False by simp
qed

subsection \<open>The tree of init_decompress, and every tree after it\<close>

lemma init_tree_son_values:
  assumes ok: "arrays_ok h"
  shows "son (init_tree h) = son_values"
proof (rule nth_equalityI)
  show "length (son (init_tree h)) = length son_values"
    using init_tree_length(1)[OF ok] by (simp add: son_values_def consts_defs)
  fix k assume "k < length (son (init_tree h))"
  then have k: "k < 627" using init_tree_length(1)[OF ok] by simp
  show "son (init_tree h) ! k = son_values ! k"
    using k by (simp add: init_tree_son[OF ok] son_values_def consts_defs nth_append)
qed

lemma init_tree_freq_step:
  assumes ok: "arrays_ok h" and k: "k + 1 < 627"
  shows "freq (init_tree h) ! k \<le> freq (init_tree h) ! (k + 1)"
proof -
  have a: "k < 627" "Suc k < 627" using k by simp_all
  show ?thesis
    unfolding init_tree_freq_value[OF ok a(1)]
    using init_tree_freq_value[OF ok a(2)] by (simp split: if_splits)
qed

lemma init_tree_freq_bounds:
  assumes ok: "arrays_ok h" and k: "k < 627"
  shows "1 \<le> freq (init_tree h) ! k" and "freq (init_tree h) ! k \<le> 314"
  unfolding init_tree_freq_value[OF ok k] by simp_all

text \<open>\<open>init_decompress\<close> builds a tree.\<close>

lemma init_tree_inv:
  assumes ok: "arrays_ok h"
  shows "tree_inv (init_tree h)"
proof -
  let ?h = "init_tree h"
  note len = init_tree_length[OF ok]
  have k2: "sorted (take TSIZE (freq ?h))"
    unfolding sorted_iff_nth_Suc
  proof (intro allI impI)
    fix i assume "Suc i < length (take TSIZE (freq ?h))"
    then have i: "i + 1 < 627" using len by (simp add: consts_defs)
    from init_tree_freq_step[OF ok i] show "take TSIZE (freq ?h) ! i \<le> take TSIZE (freq ?h) ! Suc i"
      using i by (simp add: consts_defs)
  qed
  have k3: "\<forall>p<TSIZE. 1 \<le> freq ?h ! p"
    using init_tree_freq_bounds(1)[OF ok] by (simp add: consts_defs)
  have k4: "freq ?h ! TSIZE = 0xFFFF" using init_tree_freq_top[OF ok] by (simp add: consts_defs)
  have k5: "set (son ?h) = set son_values" by (simp only: init_tree_son_values[OF ok])
  have k6: "\<forall>p<TSIZE. son ?h ! p < TSIZE \<longrightarrow> son ?h ! p + 1 < p"
    by (auto simp: init_tree_son[OF ok] consts_defs split: if_splits)
  have k7: "\<forall>p<TSIZE. parent ?h ! (son ?h ! p) = p
            \<and> (son ?h ! p < TSIZE \<longrightarrow> parent ?h ! (son ?h ! p + 1) = p)"
  proof (intro allI impI)
    fix p assume "p < TSIZE"
    then have p: "p < 627" by (simp add: consts_defs)
    show "parent ?h ! (son ?h ! p) = p \<and> (son ?h ! p < TSIZE \<longrightarrow> parent ?h ! (son ?h ! p + 1) = p)"
    proof (cases "p < 314")
      case True
      then have s: "son ?h ! p = p + 627" using init_tree_son[OF ok p] by simp
      have "parent ?h ! (p + 627) = p" using True by (simp add: init_tree_parent[OF ok])
      then show ?thesis unfolding s by (simp add: consts_defs)
    next
      case False
      then have s: "son ?h ! p = 2 * (p - 314)" using init_tree_son[OF ok p] by simp
      have a: "2 * (p - 314) < 626" "2 * (p - 314) + 1 < 626" using p False by simp_all
      have "parent ?h ! (2 * (p - 314)) = p"
        using a False by (simp add: init_tree_parent[OF ok])
      moreover have "parent ?h ! (2 * (p - 314) + 1) = p"
        using a False by (simp add: init_tree_parent[OF ok])
      ultimately show ?thesis unfolding s by simp
    qed
  qed
  have k8: "parent ?h ! ROOT = 0" by (simp add: init_tree_parent[OF ok] consts_defs)
  have core: "tree_core ?h"
    unfolding tree_core_def
    using init_tree_arrays_ok[OF ok] k2 k3 k4 k5 k6 k7 k8 by (intro conjI) (simp_all only:)
  have sums: "tree_sums TSIZE ?h"
    unfolding tree_sums_def
  proof (intro allI impI)
    fix p assume "p < TSIZE" and i: "son ?h ! p < TSIZE"
    then have p: "p < 627" by (simp add: consts_defs)
    have p314: "314 \<le> p" using i init_tree_son[OF ok p] by (simp add: consts_defs split: if_splits)
    then have s: "son ?h ! p = 2 * (p - 314)" using init_tree_son[OF ok p] by simp
    have a: "2 * (p - 314) < 627" "2 * (p - 314) + 1 < 627" using p by simp_all
    have "freq ?h ! p = (freq ?h ! (2 * (p - 314)) + freq ?h ! (2 * (p - 314) + 1)) mod 2 ^ 32"
      using ok p314 by (rule init_tree_freq_node) (use p in simp)
    moreover have "freq ?h ! (2 * (p - 314)) + freq ?h ! (2 * (p - 314) + 1) \<le> 628"
      using init_tree_freq_bounds(2)[OF ok a(1)] init_tree_freq_bounds(2)[OF ok a(2)] by simp
    ultimately have "freq ?h ! p = freq ?h ! (2 * (p - 314)) + freq ?h ! (2 * (p - 314) + 1)"
      by simp
    then show "freq ?h ! p + (if p = TSIZE then 1 else 0)
          = freq ?h ! (son ?h ! p) + freq ?h ! (son ?h ! p + 1)"
      unfolding s using p by (simp add: consts_defs)
  qed
  have "freq ?h ! ROOT = 314" using init_tree_freq_value[OF ok, of 626] by (simp add: consts_defs)
  then have "freq ?h ! ROOT \<le> MAX_FREQ" by (simp add: consts_defs)
  with core sums show ?thesis by (simp add: tree_inv_def)
qed

lemma updates_inv:
  assumes "tree_inv h" and "\<forall>s \<in> set ss. s < N_CHAR"
  shows "\<exists>h'. updates h ss = Some h' \<and> tree_inv h'"
  using assms
proof (induction ss arbitrary: h)
  case Nil
  then show ?case by simp
next
  case (Cons s ss)
  from update_correct[OF Cons.prems(1), of s] Cons.prems(2)
  obtain h1 where u: "update h s = Some h1" and t: "tree_inv h1" by auto
  from Cons.IH[OF t] Cons.prems(2) obtain h' where "updates h1 ss = Some h'" "tree_inv h'" by auto
  then show ?case using u by simp
qed

lemma update_no_rebuild:
  assumes t: "tree_inv h" and r: "freq h ! ROOT \<noteq> MAX_FREQ" and s: "s < N_CHAR"
  shows "update h s = update_loop h (parent h ! (s + TSIZE))"
    and "\<exists>h'. update h s = Some h' \<and> tree_inv h' \<and> freq h' ! ROOT = freq h ! ROOT + 1"
proof -
  note c = tree_invD(1)[OF t]
  have rd: "rd (parent h) (s + TSIZE) = Some (parent h ! (s + TSIZE))"
    using s core_lengths(1)[OF c] by (simp add: rd_def)
  show u: "update h s = update_loop h (parent h ! (s + TSIZE))"
    unfolding update_unfold[OF c s] using r rd by simp
  have "freq h ! ROOT < MAX_FREQ" using r tree_invD(3)[OF t] by simp
  from update_after[OF c tree_invD(2)[OF t] this s]
  show "\<exists>h'. update h s = Some h' \<and> tree_inv h' \<and> freq h' ! ROOT = freq h ! ROOT + 1"
    unfolding u rd by simp
qed

lemma updates_root:
  assumes "tree_inv h" and "\<forall>s \<in> set ss. s < N_CHAR" and "freq h ! ROOT + length ss \<le> MAX_FREQ"
  shows "\<exists>h'. updates h ss = Some h' \<and> freq h' ! ROOT = freq h ! ROOT + length ss"
  using assms
proof (induction ss arbitrary: h)
  case Nil
  then show ?case by simp
next
  case (Cons s ss)
  have r: "freq h ! ROOT \<noteq> MAX_FREQ" using Cons.prems(3) by simp
  have s: "s < N_CHAR" using Cons.prems(2) by simp
  from update_no_rebuild(2)[OF Cons.prems(1) r s]
  obtain h1 where u: "update h s = Some h1" and t: "tree_inv h1"
    and r1: "freq h1 ! ROOT = freq h ! ROOT + 1" by blast
  have "\<exists>h'. updates h1 ss = Some h' \<and> freq h' ! ROOT = freq h1 ! ROOT + length ss"
    using t Cons.prems(2,3) r1 by (intro Cons.IH) simp_all
  then show ?case using u r1 by auto
qed

text \<open>
  \<open>DecodeChar\<close> leaves its loop with an entry of \<open>son\<close> that is at least \<open>TSIZE\<close>, so the
  symbol it passes to \<open>update\<close> is below \<open>N_CHAR\<close>: the calls of \<open>update\<close> in a run of the
  decoder are those \<open>updates\<close> describes.
\<close>

lemma DecodeChar_walk_leaf:
  assumes run: "DecodeChar_walk sn c b = Some r"
  shows "fst r \<in> set sn \<and> TSIZE \<le> fst r"
proof (rule DecodeChar_walk.raw_induct
         [where P = "\<lambda>sn c b r. fst r \<in> set sn \<and> TSIZE \<le> fst r", OF _ run])
  fix walk :: "nat list \<Rightarrow> nat \<Rightarrow> bitsrc \<Rightarrow> (nat \<times> bitsrc) option" and sn c b r
  assume ih: "\<And>sn c b r. walk sn c b = Some r \<Longrightarrow> fst r \<in> set sn \<and> TSIZE \<le> fst r"
    and st: "rd sn c \<bind> (\<lambda>c'. if c' < TSIZE
              then case GetBit b of (t, b') \<Rightarrow> walk sn ((c' + unat t) mod 2 ^ 32) b'
              else Some (c', b)) = Some r"
  from st have cl: "c < length sn" by (auto simp: rd_def split: if_splits)
  show "fst r \<in> set sn \<and> TSIZE \<le> fst r"
  proof (cases "sn ! c < TSIZE")
    case True
    obtain t b1 where g: "GetBit b = (t, b1)" by (cases "GetBit b")
    from st cl True g have "walk sn ((sn ! c + unat t) mod 2 ^ 32) b1 = Some r"
      by (simp add: rd_def)
    then show ?thesis by (rule ih)
  next
    case False
    with st cl have "fst r = sn ! c" by (auto simp: rd_def)
    with cl False show ?thesis by simp
  qed
qed

lemma DecodeChar_symbol:
  assumes t: "tree_inv h" and d: "DecodeChar h b = Some (s, h', b')"
  shows "s < N_CHAR \<and> update h s = Some h' \<and> tree_inv h'"
proof -
  from d obtain r b1 where w: "DecodeChar_walk (son h) ROOT b = Some (r, b1)"
    and s: "s = r - TSIZE" and u: "update h s = Some h'"
    by (auto simp: DecodeChar_def Let_def split: bind_splits)
  from DecodeChar_walk_leaf[OF w] have "r \<in> set son_values" "TSIZE \<le> r"
    using core_son_set[OF tree_invD(1)[OF t]] by simp_all
  then have "r < TSIZE + N_CHAR" unfolding son_values_set by (auto simp: consts_defs)
  then have sN: "s < N_CHAR" using s \<open>TSIZE \<le> r\<close> by simp
  from update_correct[OF t sN] u show ?thesis using sN by auto
qed

text \<open>
  C5. Let \<open>h\<close> be the tree after \<open>init_decompress\<close> and any number of \<open>update\<close> calls for
  symbols below \<open>N_CHAR\<close>, and let \<open>freq[ROOT]\<close> be \<open>MAX_FREQ\<close> in \<open>h\<close>. Then \<open>update h s\<close>,
  for a symbol \<open>s\<close> below \<open>N_CHAR\<close>, first runs the rebuild to completion, giving a tree
  \<open>h1\<close>, and only then runs the increment loop, on \<open>h1\<close>. In \<open>h1\<close> the leaves are the leaves
  of \<open>h\<close> in the same order, each with the same symbol and the frequency \<open>(old + 1) / 2\<close>;
  \<open>h1\<close> is a tree again (nodes sorted by frequency, every internal node above its two
  children and carrying the sum of their frequencies, every \<open>parent\<close> entry naming the
  node that holds it as \<open>son\<close>); and \<open>freq[ROOT]\<close> of \<open>h1\<close> is below \<open>MAX_FREQ\<close>. The call
  returns a tree \<open>h2\<close> whose \<open>freq[ROOT]\<close> is one more than that of \<open>h1\<close> and still below
  \<open>MAX_FREQ\<close>, so the next \<open>update\<close> call goes straight to the increment loop: one
  rebuild for one arrival at \<open>MAX_FREQ\<close>.
\<close>

theorem update_rebuilds_at_MAX_FREQ:
  assumes ok: "arrays_ok h0" and ss: "\<forall>s \<in> set ss. s < N_CHAR"
    and run: "updates (init_tree h0) ss = Some h"
    and root: "freq h ! ROOT = MAX_FREQ" and s: "s < N_CHAR"
  shows "\<exists>h1 h2. rebuild h = Some h1
           \<and> leaves h1 = map halve (leaves h)
           \<and> tree_inv h1
           \<and> freq h1 ! ROOT < MAX_FREQ
           \<and> update h s = update_loop h1 (parent h1 ! (s + TSIZE))
           \<and> update h s = Some h2
           \<and> tree_inv h2
           \<and> freq h2 ! ROOT = freq h1 ! ROOT + 1
           \<and> freq h2 ! ROOT < MAX_FREQ
           \<and> (\<forall>s'<N_CHAR. update h2 s' = update_loop h2 (parent h2 ! (s' + TSIZE)))"
proof -
  from updates_inv[OF init_tree_inv[OF ok] ss] run have t: "tree_inv h" by simp
  note c = tree_invD(1)[OF t]
  from rebuild_correct[OF tree_invD[OF t]] obtain h1 where
    rb: "rebuild h = Some h1" and c1: "tree_core h1" and s1: "tree_sums TSIZE h1"
    and lv: "leaves h1 = map halve (leaves h)" and r1: "freq h1 ! ROOT < MAX_FREQ"
    by blast
  have t1: "tree_inv h1" using c1 s1 r1 by (simp add: tree_inv_def)
  have rd: "rd (parent h1) (s + TSIZE) = Some (parent h1 ! (s + TSIZE))"
    using s core_lengths(1)[OF c1] by (simp add: rd_def)
  have u: "update h s = update_loop h1 (parent h1 ! (s + TSIZE))"
    unfolding update_unfold[OF c s] using root rb rd by simp
  from update_after[OF c1 s1 r1 s] obtain h2 where
    u2: "update_loop h1 (parent h1 ! (s + TSIZE)) = Some h2" and t2: "tree_inv h2"
    and r2: "freq h2 ! ROOT = freq h1 ! ROOT + 1"
    unfolding rd by auto
  have "2 * freq h1 ! ROOT \<le> freq h ! ROOT + N_CHAR"
  proof -
    have "freq h1 ! ROOT = sum_list (map fst (leaves h1))" using leaf_sum_root[OF c1 s1] by simp
    then show ?thesis
      using halve_sum[of "map fst (leaves h)"] leaf_sum_root[OF c tree_invD(2)[OF t]]
        core_leaves_length[OF c]
      unfolding lv halve_map_fst by simp
  qed
  then have r2': "freq h2 ! ROOT < MAX_FREQ" using r2 root by (simp add: consts_defs)
  then have "freq h2 ! ROOT \<noteq> MAX_FREQ" by simp
  then have nx: "\<forall>s'<N_CHAR. update h2 s' = update_loop h2 (parent h2 ! (s' + TSIZE))"
    using update_no_rebuild(1)[OF t2] by blast
  show ?thesis using rb lv t1 r1 u u2 t2 r2 r2' nx by auto
qed

theorem update_rebuilds_at_MAX_FREQ_witness:
  "\<exists>h. updates (init_tree huff_start) (replicate 32454 0) = Some h
     \<and> freq h ! ROOT = MAX_FREQ
     \<and> (\<exists>h1 h2. rebuild h = Some h1
           \<and> leaves h1 = map halve (leaves h)
           \<and> tree_inv h1
           \<and> freq h1 ! ROOT < MAX_FREQ
           \<and> update h 0 = update_loop h1 (parent h1 ! (0 + TSIZE))
           \<and> update h 0 = Some h2
           \<and> tree_inv h2
           \<and> freq h2 ! ROOT = freq h1 ! ROOT + 1
           \<and> freq h2 ! ROOT < MAX_FREQ
           \<and> (\<forall>s'<N_CHAR. update h2 s' = update_loop h2 (parent h2 ! (s' + TSIZE))))"
proof -
  have ss: "\<forall>s \<in> set (replicate 32454 (0::nat)). s < N_CHAR" by (simp add: consts_defs)
  have r6: "freq (init_tree huff_start) ! 626 = 314"
    using init_tree_freq_value[OF huff_start_ok, of 626] by simp
  then have r0: "freq (init_tree huff_start) ! ROOT = 314" by (simp add: consts_defs)
  have "\<exists>h. updates (init_tree huff_start) (replicate 32454 0) = Some h
          \<and> freq h ! ROOT = freq (init_tree huff_start) ! ROOT + length (replicate 32454 (0::nat))"
    using init_tree_inv[OF huff_start_ok] ss by (rule updates_root) (simp add: r6 consts_defs)
  then obtain h where run: "updates (init_tree huff_start) (replicate 32454 0) = Some h"
    and root: "freq h ! ROOT = MAX_FREQ" by (auto simp: r6 consts_defs)
  have s: "(0::nat) < N_CHAR" by (simp add: consts_defs)
  from update_rebuilds_at_MAX_FREQ[OF huff_start_ok ss run root s] run root
  show ?thesis by blast
qed


end
